theory Spec2Isabelle
  imports Main "HOL-Library.Multiset"
begin

text \<open>
  A command-line program that fetches a podcast feed, picks the episodes of two series
  by the number in their titles, sorts each series by that number, downloads every
  episode to \<open>Downloads/<title>.mp3\<close> and tags the file with \<open>id3v2\<close>. The model
  follows \<open>main.cpp\<close> function by function. What the program calls but does not
  contain is a parameter (pugixml's parser, libcurl, the C library, \<open>std::sort\<close>) or,
  where its result is fixed by the language standard, a definition (\<open>std::stoi\<close>,
  \<open>std::to_string\<close>, the part of \<open>std::regex\<close> the two patterns use). Where the
  standard leaves the result of \<open>std::sort\<close> open, the order of records with equal
  episode numbers, the sort of the GNU C++ library is written out as well.
\<close>

section \<open>Data model\<close>

text \<open>
  \<^verbatim>\<open>struct EpisodeInfo { std::string name; std::string link; int episodeNumber; }\<close>.
  The field \<open>episodeNumber\<close> is a C++ \<open>int\<close>; the program never computes with it, it
  only stores what \<open>std::stoi\<close> returns (which checks the range, see \<open>stoi\<close>) and compares
  it, so it is an \<open>int\<close> here and the range is kept by \<open>stoi\<close>.
\<close>

record EpisodeInfo =
  name :: string
  link :: string
  episodeNumber :: int

definition INT_MAX :: int where
  "INT_MAX = 2147483647"

definition INT_MIN :: int where
  "INT_MIN = - 2147483648"

text \<open>The exceptions the standard library can throw in this program; none is caught.\<close>

datatype exn = Invalid_argument | Out_of_range | Filesystem_error

text \<open>What the process writes, and the calls it makes to the outside, in order.\<close>

datatype event =
    Cout string
  | Cerr string
  | Http_get string
  | File_open string
  | System string
  | Mkdir string

section \<open>Characters\<close>

text \<open>The byte value of a character.\<close>

definition code :: "char \<Rightarrow> nat" where
  "code c = of_char c"

text \<open>\<open>isdigit\<close>: the bytes 48 to 57, \<open>0\<close> to \<open>9\<close>.\<close>

definition is_digit :: "char \<Rightarrow> bool" where
  "is_digit c = (48 \<le> code c \<and> code c \<le> 57)"

text \<open>\<open>isupper\<close>: the bytes 65 to 90, \<open>A\<close> to \<open>Z\<close>.\<close>

definition is_upper :: "char \<Rightarrow> bool" where
  "is_upper c = (65 \<le> code c \<and> code c \<le> 90)"

text \<open>\<open>tolower\<close> of the classic locale: only A to Z change.\<close>

definition to_lower :: "char \<Rightarrow> char" where
  "to_lower c = (if is_upper c then char_of (code c + 32) else c)"

text \<open>\<open>isspace\<close> of the classic locale: space, \<open>\t \n \v \f \r\<close>.\<close>

definition is_space :: "char \<Rightarrow> bool" where
  "is_space c = (code c = 32 \<or> (9 \<le> code c \<and> code c \<le> 13))"

definition digit_val :: "char \<Rightarrow> int" where
  "digit_val c = int (code c) - 48"

text \<open>
  \<open>s.c_str()\<close> handed to a C interface: what the callee reads is the string up to its
  first zero byte.
\<close>

definition c_str :: "string \<Rightarrow> string" where
  "c_str s = takeWhile (\<lambda>c. code c \<noteq> 0) s"

section \<open>std::stoi\<close>

text \<open>
  \<open>std::stoi(str)\<close> with base 10: \<open>strtol\<close> skips leading white space, reads an optional
  sign and then the longest run of decimal digits. No digit: \<open>std::invalid_argument\<close>.
  A value outside the range of \<open>int\<close>: \<open>std::out_of_range\<close>. What follows the digits is
  ignored.
\<close>

definition digits_val :: "string \<Rightarrow> int" where
  "digits_val ds = foldl (\<lambda>acc c. 10 * acc + digit_val c) 0 ds"

definition stoi :: "string \<Rightarrow> exn + int" where
  "stoi str =
     (let s1 = dropWhile is_space str;
          neg = (case s1 of [] \<Rightarrow> False | c # _ \<Rightarrow> c = CHR ''-'');
          s2 = (case s1 of [] \<Rightarrow> [] | c # cs \<Rightarrow> if c = CHR ''-'' \<or> c = CHR ''+'' then cs else s1);
          ds = takeWhile is_digit s2;
          v = (if neg then - digits_val ds else digits_val ds)
      in if ds = [] then Inl Invalid_argument
         else if v < INT_MIN \<or> INT_MAX < v then Inl Out_of_range
         else Inr v)"

section \<open>std::regex\<close>

text \<open>
  The fragment of the ECMAScript grammar that the program's two patterns are written in:
  a literal character, \<open>\d\<close>, concatenation, the greedy \<open>+\<close> and a numbered capture group.
  \<open>MAG (\d+)\<close> is \<open>lits ''MAG '' (Group 1 (Plus Digit))\<close>.
\<close>

datatype regex =
    Chr char
  | Digit
  | Cat regex regex
  | Plus regex
  | Group nat regex

text \<open>A compiled \<open>std::regex\<close>: the expression and the \<open>icase\<close> flag.\<close>

record pattern =
  expr :: regex
  icase :: bool

type_synonym captures = "nat \<rightharpoonup> string"

definition chr_eq :: "bool \<Rightarrow> char \<Rightarrow> char \<Rightarrow> bool" where
  "chr_eq ic c x = (if ic then to_lower c = to_lower x else c = x)"

text \<open>
  The backtracking matcher: \<open>rmatch ic r s cs\<close> lists, in the order in which the
  backtracking search tries them, the ways \<open>r\<close> can match a prefix of \<open>s\<close>, each as the
  input left over and the captures set so far. \<open>+\<close> is greedy: one more iteration is
  tried before stopping, and an iteration that consumed nothing is not repeated.
\<close>

fun rmatch :: "bool \<Rightarrow> regex \<Rightarrow> string \<Rightarrow> captures \<Rightarrow> (string \<times> captures) list" where
  "rmatch ic (Chr c) s cs =
     (case s of [] \<Rightarrow> [] | x # xs \<Rightarrow> if chr_eq ic c x then [(xs, cs)] else [])"
| "rmatch ic Digit s cs =
     (case s of [] \<Rightarrow> [] | x # xs \<Rightarrow> if is_digit x then [(xs, cs)] else [])"
| "rmatch ic (Cat a b) s cs =
     concat (map (\<lambda>(s', cs'). rmatch ic b s' cs') (rmatch ic a s cs))"
| "rmatch ic (Plus a) s cs =
     concat (map (\<lambda>(s', cs').
        (if length s' < length s then rmatch ic (Plus a) s' cs' else []) @ [(s', cs')])
      (rmatch ic a s cs))"
| "rmatch ic (Group n a) s cs =
     map (\<lambda>(s', cs'). (s', cs'(n \<mapsto> take (length s - length s') s))) (rmatch ic a s cs)"

declare rmatch.simps(4) [simp del]

text \<open>
  \<open>std::regex_search(s, match, pattern)\<close>: the first start position, from the left, at
  which the pattern matches, and there the first match of the backtracking search.
  \<open>None\<close> is \<open>false\<close>; \<open>Some cs\<close> is \<open>true\<close> with the sub-matches \<open>cs\<close>.
\<close>

fun search_from :: "bool \<Rightarrow> regex \<Rightarrow> string \<Rightarrow> captures option" where
  "search_from ic r [] =
     (case rmatch ic r [] Map.empty of (rest, cs) # _ \<Rightarrow> Some cs | [] \<Rightarrow> None)"
| "search_from ic r (x # xs) =
     (case rmatch ic r (x # xs) Map.empty of
        (rest, cs) # _ \<Rightarrow> Some cs
      | [] \<Rightarrow> search_from ic r xs)"

definition regex_search :: "string \<Rightarrow> pattern \<Rightarrow> captures option" where
  "regex_search s p = search_from (icase p) (expr p) s"

text \<open>\<open>match[i].str()\<close>: the text of group \<open>i\<close>, empty when the group did not take part.\<close>

definition sub_match :: "captures \<Rightarrow> nat \<Rightarrow> string" where
  "sub_match cs i = (case cs i of None \<Rightarrow> [] | Some t \<Rightarrow> t)"

fun lits :: "string \<Rightarrow> regex \<Rightarrow> regex" where
  "lits [] r = r"
| "lits (c # cs) r = Cat (Chr c) (lits cs r)"

text \<open>\<^verbatim>\<open>std::regex pattern("MAG (\\d+)", std::regex::icase)\<close>\<close>

definition mag_pattern :: pattern where
  "mag_pattern = \<lparr>expr = lits ''MAG '' (Group 1 (Plus Digit)), icase = True\<rparr>"

text \<open>\<^verbatim>\<open>std::regex pattern2("The Magnus Protocol (\\d+)", std::regex::icase)\<close>\<close>

definition protocol_pattern :: pattern where
  "protocol_pattern =
     \<lparr>expr = lits ''The Magnus Protocol '' (Group 1 (Plus Digit)), icase = True\<rparr>"

section \<open>The pugixml document\<close>

text \<open>
  The tree that \<open>load_string\<close> builds with its default options: an element with its
  name, attributes and children, or a run of character data (plain or a \<open>CDATA\<close>
  section; comments, processing instructions and the declaration are not kept). A handle
  that pugixml leaves empty (no such child, no such attribute) is \<open>None\<close>; every
  accessor on it gives the empty string.
\<close>

datatype xml_node =
    Element string "(string \<times> string) list" "xml_node list"
  | PCData string

fun node_name :: "xml_node \<Rightarrow> string" where
  "node_name (Element n _ _) = n"
| "node_name (PCData _) = []"

fun children :: "xml_node \<Rightarrow> xml_node list" where
  "children (Element _ _ cs) = cs"
| "children (PCData _) = []"

fun attributes :: "xml_node \<Rightarrow> (string \<times> string) list" where
  "attributes (Element _ as _) = as"
| "attributes (PCData _) = []"

text \<open>\<open>node.child(name)\<close>: the first child with that name.\<close>

definition child :: "xml_node option \<Rightarrow> string \<Rightarrow> xml_node option" where
  "child n nm = (case n of None \<Rightarrow> None
                 | Some nd \<Rightarrow> find (\<lambda>c. node_name c = nm) (children nd))"

text \<open>\<open>node.text().get()\<close>: the first character-data child's value, or the empty string.\<close>

fun is_pcdata :: "xml_node \<Rightarrow> bool" where
  "is_pcdata (PCData _) = True"
| "is_pcdata (Element _ _ _) = False"

definition text_get :: "xml_node option \<Rightarrow> string" where
  "text_get n = (case n of None \<Rightarrow> []
                 | Some (PCData t) \<Rightarrow> t
                 | Some (Element _ _ cs) \<Rightarrow>
                     (case find is_pcdata cs of Some (PCData t) \<Rightarrow> t | _ \<Rightarrow> []))"

text \<open>\<open>node.attribute(name).value()\<close>: the first attribute of that name, or the empty string.\<close>

definition attribute_value :: "xml_node option \<Rightarrow> string \<Rightarrow> string" where
  "attribute_value n nm = (case n of None \<Rightarrow> []
                 | Some nd \<Rightarrow> (case map_of (attributes nd) nm of None \<Rightarrow> [] | Some v \<Rightarrow> v))"

text \<open>
  \<open>doc.select_nodes("/rss/channel/item")\<close>: the \<open>item\<close> children of the \<open>channel\<close>
  children of the \<open>rss\<close> children of the document, in document order. The argument is the
  list of the document's top-level nodes.
\<close>

definition step_child :: "string \<Rightarrow> xml_node list \<Rightarrow> xml_node list" where
  "step_child nm ns = concat (map (\<lambda>n. filter (\<lambda>c. node_name c = nm) (children n)) ns)"

definition select_items :: "xml_node list \<Rightarrow> xml_node list" where
  "select_items doc =
     step_child ''item'' (step_child ''channel'' (filter (\<lambda>c. node_name c = ''rss'') doc))"

section \<open>parseRssFeed\<close>

text \<open>
  One turn of the loop over the selected items. The result is the exception that
  \<open>std::stoi\<close> threw, or the vector after the turn.
\<close>

definition item_name :: "xml_node \<Rightarrow> string" where
  "item_name item = text_get (child (Some item) ''title'')"

definition item_link :: "xml_node \<Rightarrow> string" where
  "item_link item = attribute_value (child (Some item) ''enclosure'') ''url''"

definition parse_item :: "pattern \<Rightarrow> xml_node \<Rightarrow> EpisodeInfo list \<Rightarrow> exn + EpisodeInfo list" where
  "parse_item pat item episodes =
     (let nm = item_name item;
          lk = item_link item
      in case (case regex_search nm pat of
                 Some m \<Rightarrow> stoi (sub_match m 1)
               | None \<Rightarrow> Inr (- 1)) of
           Inl e \<Rightarrow> Inl e
         | Inr n \<Rightarrow>
             if n \<noteq> - 1
             then Inr (episodes @ [\<lparr>name = nm, link = lk, episodeNumber = n\<rparr>])
             else Inr episodes)"

fun parse_items :: "pattern \<Rightarrow> xml_node list \<Rightarrow> EpisodeInfo list \<Rightarrow> exn + EpisodeInfo list" where
  "parse_items pat [] episodes = Inr episodes"
| "parse_items pat (item # items) episodes =
     (case parse_item pat item episodes of
        Inl e \<Rightarrow> Inl e
      | Inr episodes' \<Rightarrow> parse_items pat items episodes')"

text \<open>
  \<open>load_string\<close> is pugixml's parser, which is not part of this program: it is a
  parameter, giving either the description of the parse failure or the document. It
  is called on \<open>xmlData.c_str()\<close>.
  \<open>parseRssFeed\<close> returns what it wrote to standard error and, unless \<open>std::stoi\<close>
  threw, the caller's vector as it leaves it.
\<close>

type_synonym loader = "string \<Rightarrow> string + xml_node list"

definition parseRssFeed ::
  "loader \<Rightarrow> pattern \<Rightarrow> string \<Rightarrow> EpisodeInfo list \<Rightarrow> event list \<times> (exn + EpisodeInfo list)" where
  "parseRssFeed load_string pat xmlData episodes =
     (case load_string (c_str xmlData) of
        Inl description \<Rightarrow> ([Cerr (''Error parsing XML: '' @ description)], Inr episodes)
      | Inr doc \<Rightarrow> ([], parse_items pat (select_items doc) episodes))"

section \<open>The sequencer\<close>

text \<open>
  The comparator handed to \<open>std::sort\<close>:
  \<^verbatim>\<open>[](const EpisodeInfo& a, const EpisodeInfo& b) { return a.episodeNumber < b.episodeNumber; }\<close>
\<close>

definition episode_less :: "EpisodeInfo \<Rightarrow> EpisodeInfo \<Rightarrow> bool" where
  "episode_less a b = (episodeNumber a < episodeNumber b)"

text \<open>
  \<open>std::sort\<close> belongs to the standard library, and the C++ standard fixes its result
  only so far: when the comparator is a strict weak ordering, the range ends up a
  permutation of what it was, with no element ordered before its predecessor; the order
  of equivalent elements is not guaranteed to be preserved. The sort is therefore a
  parameter, and \<open>sort_contract\<close> is what the standard promises of it.
\<close>

type_synonym 'a sorter = "('a \<Rightarrow> 'a \<Rightarrow> bool) \<Rightarrow> 'a list \<Rightarrow> 'a list"

definition strict_weak_order :: "('a \<Rightarrow> 'a \<Rightarrow> bool) \<Rightarrow> bool" where
  "strict_weak_order cmp =
     ((\<forall>a. \<not> cmp a a) \<and>
      (\<forall>a b c. cmp a b \<and> cmp b c \<longrightarrow> cmp a c) \<and>
      (\<forall>a b c. \<not> cmp a b \<and> \<not> cmp b a \<and> \<not> cmp b c \<and> \<not> cmp c b
                 \<longrightarrow> \<not> cmp a c \<and> \<not> cmp c a))"

definition sort_contract :: "'a sorter \<Rightarrow> bool" where
  "sort_contract srt =
     (\<forall>cmp xs. strict_weak_order cmp \<longrightarrow>
        mset (srt cmp xs) = mset xs \<and> sorted_wrt (\<lambda>a b. \<not> cmp b a) (srt cmp xs))"

text \<open>\<^verbatim>\<open>std::sort(episodes.begin(), episodes.end(), <comparator>)\<close>\<close>

definition sequencer :: "EpisodeInfo sorter \<Rightarrow> EpisodeInfo list \<Rightarrow> EpisodeInfo list" where
  "sequencer srt episodes = srt episode_less episodes"

text \<open>
  A sort that keeps the contract: insertion from the right that puts an element in
  front of its equivalents (ties keep their order).
\<close>

fun insert_before :: "('a \<Rightarrow> 'a \<Rightarrow> bool) \<Rightarrow> 'a \<Rightarrow> 'a list \<Rightarrow> 'a list" where
  "insert_before cmp x [] = [x]"
| "insert_before cmp x (y # ys) =
     (if cmp y x then y # insert_before cmp x ys else x # y # ys)"

definition stable_sort :: "'a sorter" where
  "stable_sort cmp xs = foldr (insert_before cmp) xs []"

section \<open>std::sort in the GNU C++ library\<close>

text \<open>
  \<open>std::sort\<close> as the GNU C++ library implements it (\<open>bits/stl_algo.h\<close> and
  \<open>bits/stl_heap.h\<close> of libstdc++), which is the \<open>std::sort\<close> of the program when it is
  built with GCC. It is not part of the repository; it is written out here, function by
  function and under the library's names, to say what the sequencer does with records
  of equal episode number. The vector is a list, an iterator is an index into it, and
  a range is a pair of indices \<open>first\<close> and \<open>lst\<close> (the library's \<open>__last\<close>).
\<close>

definition iter_swap :: "'a list \<Rightarrow> nat \<Rightarrow> nat \<Rightarrow> 'a list" where
  "iter_swap xs i j = xs[i := xs ! j, j := xs ! i]"

text \<open>
  \<open>std::__lg\<close>: the position of the highest set bit, for a length of at least 1.
\<close>

fun lg :: "nat \<Rightarrow> nat" where
  "lg n = (if n < 2 then 0 else Suc (lg (n div 2)))"

declare lg.simps [simp del]

text \<open>
  \<open>std::__unguarded_linear_insert\<close>: the element at \<open>lst\<close> moves left past every
  element it is ordered before. The library does not test for the start of the range;
  where it would step before index 0 (which a strict weak ordering never makes it do
  here) the model stops.
\<close>

fun linear_insert_loop :: "('a \<Rightarrow> 'a \<Rightarrow> bool) \<Rightarrow> 'a \<Rightarrow> 'a list \<Rightarrow> nat \<Rightarrow> 'a list" where
  "linear_insert_loop cmp val xs 0 = xs[0 := val]"
| "linear_insert_loop cmp val xs (Suc next) =
     (if cmp val (xs ! next)
      then linear_insert_loop cmp val (xs[Suc next := xs ! next]) next
      else xs[Suc next := val])"

definition unguarded_linear_insert :: "('a \<Rightarrow> 'a \<Rightarrow> bool) \<Rightarrow> 'a list \<Rightarrow> nat \<Rightarrow> 'a list" where
  "unguarded_linear_insert cmp xs lst = linear_insert_loop cmp (xs ! lst) xs lst"

text \<open>
  \<open>std::__insertion_sort\<close>: an element ordered before the first one is moved to the
  front, with the elements between shifted right by one; any other is inserted by
  \<open>unguarded_linear_insert\<close>.
\<close>

definition move_to_first :: "'a list \<Rightarrow> nat \<Rightarrow> nat \<Rightarrow> 'a list" where
  "move_to_first xs first i =
     take first xs @ xs ! i # take (i - first) (drop first xs) @ drop (Suc i) xs"

definition insertion_sort :: "('a \<Rightarrow> 'a \<Rightarrow> bool) \<Rightarrow> 'a list \<Rightarrow> nat \<Rightarrow> nat \<Rightarrow> 'a list" where
  "insertion_sort cmp xs first lst =
     (if first = lst then xs
      else foldl (\<lambda>ys i. if cmp (ys ! i) (ys ! first) then move_to_first ys first i
                          else unguarded_linear_insert cmp ys i)
             xs [Suc first..<lst])"

definition unguarded_insertion_sort ::
  "('a \<Rightarrow> 'a \<Rightarrow> bool) \<Rightarrow> 'a list \<Rightarrow> nat \<Rightarrow> nat \<Rightarrow> 'a list" where
  "unguarded_insertion_sort cmp xs first lst =
     foldl (\<lambda>ys i. unguarded_linear_insert cmp ys i) xs [first..<lst]"

text \<open>
  \<open>std::__final_insertion_sort\<close>, with the library's threshold of 16.
\<close>

definition S_threshold :: nat where
  "S_threshold = 16"

definition final_insertion_sort ::
  "('a \<Rightarrow> 'a \<Rightarrow> bool) \<Rightarrow> 'a list \<Rightarrow> nat \<Rightarrow> nat \<Rightarrow> 'a list" where
  "final_insertion_sort cmp xs first lst =
     (if S_threshold < lst - first
      then unguarded_insertion_sort cmp
             (insertion_sort cmp xs first (first + S_threshold)) (first + S_threshold) lst
      else insertion_sort cmp xs first lst)"

text \<open>
  \<open>std::__move_median_to_first\<close>: the median of the elements at \<open>a\<close>, \<open>b\<close>, \<open>c\<close>
  is exchanged with the element at \<open>result\<close>.
\<close>

definition move_median_to_first ::
  "('a \<Rightarrow> 'a \<Rightarrow> bool) \<Rightarrow> 'a list \<Rightarrow> nat \<Rightarrow> nat \<Rightarrow> nat \<Rightarrow> nat \<Rightarrow> 'a list" where
  "move_median_to_first cmp xs result a b c =
     (if cmp (xs ! a) (xs ! b)
      then (if cmp (xs ! b) (xs ! c) then iter_swap xs result b
            else if cmp (xs ! a) (xs ! c) then iter_swap xs result c
            else iter_swap xs result a)
      else if cmp (xs ! a) (xs ! c) then iter_swap xs result a
      else if cmp (xs ! b) (xs ! c) then iter_swap xs result c
      else iter_swap xs result b)"

text \<open>
  \<open>std::__unguarded_partition\<close>. Its two inner loops, \<open>while (comp(first, pivot))
  ++first\<close> and \<open>while (comp(pivot, last)) --last\<close>, do not test for the ends of the
  range; where they would leave the vector the model stops.
\<close>

function scan_up :: "('a \<Rightarrow> 'a \<Rightarrow> bool) \<Rightarrow> 'a list \<Rightarrow> nat \<Rightarrow> nat \<Rightarrow> nat" where
  "scan_up cmp xs pivot first =
     (if first < length xs \<and> cmp (xs ! first) (xs ! pivot)
      then scan_up cmp xs pivot (Suc first) else first)"
  by pat_completeness auto
termination
  by (relation "measure (\<lambda>(cmp, xs, pivot, first). length xs - first)") auto

declare scan_up.simps [simp del]

fun scan_down :: "('a \<Rightarrow> 'a \<Rightarrow> bool) \<Rightarrow> 'a list \<Rightarrow> nat \<Rightarrow> nat \<Rightarrow> nat" where
  "scan_down cmp xs pivot 0 = 0"
| "scan_down cmp xs pivot (Suc lst) =
     (if cmp (xs ! pivot) (xs ! Suc lst) then scan_down cmp xs pivot lst else Suc lst)"

function unguarded_partition ::
  "('a \<Rightarrow> 'a \<Rightarrow> bool) \<Rightarrow> 'a list \<Rightarrow> nat \<Rightarrow> nat \<Rightarrow> nat \<Rightarrow> 'a list \<times> nat" where
  "unguarded_partition cmp xs first lst pivot =
     (let f = scan_up cmp xs pivot first;
          l = scan_down cmp xs pivot (lst - 1)
      in if \<not> f < l then (xs, f)
         else unguarded_partition cmp (iter_swap xs f l) (Suc f) l pivot)"
  by pat_completeness auto
termination
proof (relation "measure (\<lambda>(cmp, xs, first, lst, pivot). lst - first)", goal_cases)
  case 1
  then show ?case by simp
next
  case (2 cmp xs first lst pivot f l)
  have up: "i \<le> scan_up c ys p i" for c :: "'a \<Rightarrow> 'a \<Rightarrow> bool" and ys p i
  proof (induction c ys p i rule: scan_up.induct)
    case (1 c ys p i)
    then show ?case
      by (subst scan_up.simps) (auto simp: Suc_leD)
  qed
  have down: "scan_down c ys p j \<le> j" for c :: "'a \<Rightarrow> 'a \<Rightarrow> bool" and ys p j
    by (induction j) (auto simp: le_SucI)
  have "first \<le> f" using 2(1) up by metis
  moreover have "l \<le> lst - 1" using 2(2) down by metis
  ultimately show ?case using 2(3) by simp
qed

declare unguarded_partition.simps [simp del]

text \<open>
  \<open>std::__unguarded_partition_pivot\<close>
\<close>

definition unguarded_partition_pivot ::
  "('a \<Rightarrow> 'a \<Rightarrow> bool) \<Rightarrow> 'a list \<Rightarrow> nat \<Rightarrow> nat \<Rightarrow> 'a list \<times> nat" where
  "unguarded_partition_pivot cmp xs first lst =
     (let mid = first + (lst - first) div 2;
          ys = move_median_to_first cmp xs first (first + 1) mid (lst - 1)
      in unguarded_partition cmp ys (first + 1) lst first)"

text \<open>
  The heap sort that \<open>std::__introsort_loop\<close> falls back on: \<open>std::__push_heap\<close>,
  \<open>std::__adjust_heap\<close> (its first loop is \<open>sift_down\<close>), \<open>std::__make_heap\<close>,
  \<open>std::__pop_heap\<close>, \<open>std::__sort_heap\<close>, \<open>std::__heap_select\<close> and
  \<open>std::__partial_sort\<close>. Indices into a heap count from \<open>first\<close>.
\<close>

function push_heap ::
  "('a \<Rightarrow> 'a \<Rightarrow> bool) \<Rightarrow> 'a list \<Rightarrow> nat \<Rightarrow> nat \<Rightarrow> nat \<Rightarrow> 'a \<Rightarrow> 'a list" where
  "push_heap cmp xs first holeIndex topIndex val =
     (if topIndex < holeIndex \<and> cmp (xs ! (first + (holeIndex - 1) div 2)) val
      then push_heap cmp (xs[first + holeIndex := xs ! (first + (holeIndex - 1) div 2)])
             first ((holeIndex - 1) div 2) topIndex val
      else xs[first + holeIndex := val])"
  by pat_completeness auto
termination
  by (relation "measure (\<lambda>(cmp, xs, first, holeIndex, topIndex, val). holeIndex)") auto

declare push_heap.simps [simp del]

function sift_down ::
  "('a \<Rightarrow> 'a \<Rightarrow> bool) \<Rightarrow> 'a list \<Rightarrow> nat \<Rightarrow> nat \<Rightarrow> nat \<Rightarrow> 'a list \<times> nat" where
  "sift_down cmp xs first len secondChild =
     (if secondChild < (len - 1) div 2
      then let c = 2 * (secondChild + 1);
               c' = (if cmp (xs ! (first + c)) (xs ! (first + (c - 1))) then c - 1 else c)
           in sift_down cmp (xs[first + secondChild := xs ! (first + c')]) first len c'
      else (xs, secondChild))"
  by pat_completeness auto
termination
  by (relation "measure (\<lambda>(cmp, xs, first, len, secondChild). len - secondChild)") auto

declare sift_down.simps [simp del]

definition adjust_heap ::
  "('a \<Rightarrow> 'a \<Rightarrow> bool) \<Rightarrow> 'a list \<Rightarrow> nat \<Rightarrow> nat \<Rightarrow> nat \<Rightarrow> 'a \<Rightarrow> 'a list" where
  "adjust_heap cmp xs first holeIndex len val =
     (let (ys, h) = sift_down cmp xs first len holeIndex;
          (zs, h') = (if even len \<and> h = (len - 2) div 2
                      then (ys[first + h := ys ! (first + (2 * (h + 1) - 1))], 2 * (h + 1) - 1)
                      else (ys, h))
      in push_heap cmp zs first h' holeIndex val)"

fun make_heap_loop ::
  "('a \<Rightarrow> 'a \<Rightarrow> bool) \<Rightarrow> 'a list \<Rightarrow> nat \<Rightarrow> nat \<Rightarrow> nat \<Rightarrow> 'a list" where
  "make_heap_loop cmp xs first len 0 = adjust_heap cmp xs first 0 len (xs ! first)"
| "make_heap_loop cmp xs first len (Suc parent) =
     make_heap_loop cmp (adjust_heap cmp xs first (Suc parent) len (xs ! (first + Suc parent)))
       first len parent"

definition make_heap :: "('a \<Rightarrow> 'a \<Rightarrow> bool) \<Rightarrow> 'a list \<Rightarrow> nat \<Rightarrow> nat \<Rightarrow> 'a list" where
  "make_heap cmp xs first lst =
     (if lst - first < 2 then xs
      else make_heap_loop cmp xs first (lst - first) ((lst - first - 2) div 2))"

definition pop_heap ::
  "('a \<Rightarrow> 'a \<Rightarrow> bool) \<Rightarrow> 'a list \<Rightarrow> nat \<Rightarrow> nat \<Rightarrow> nat \<Rightarrow> 'a list" where
  "pop_heap cmp xs first lst result =
     adjust_heap cmp (xs[result := xs ! first]) first 0 (lst - first) (xs ! result)"

function sort_heap :: "('a \<Rightarrow> 'a \<Rightarrow> bool) \<Rightarrow> 'a list \<Rightarrow> nat \<Rightarrow> nat \<Rightarrow> 'a list" where
  "sort_heap cmp xs first lst =
     (if 1 < lst - first
      then sort_heap cmp (pop_heap cmp xs first (lst - 1) (lst - 1)) first (lst - 1)
      else xs)"
  by pat_completeness auto
termination
  by (relation "measure (\<lambda>(cmp, xs, first, lst). lst)") auto

declare sort_heap.simps [simp del]

definition heap_select ::
  "('a \<Rightarrow> 'a \<Rightarrow> bool) \<Rightarrow> 'a list \<Rightarrow> nat \<Rightarrow> nat \<Rightarrow> nat \<Rightarrow> 'a list" where
  "heap_select cmp xs first middle lst =
     foldl (\<lambda>ys i. if cmp (ys ! i) (ys ! first) then pop_heap cmp ys first middle i else ys)
       (make_heap cmp xs first middle) [middle..<lst]"

definition partial_sort ::
  "('a \<Rightarrow> 'a \<Rightarrow> bool) \<Rightarrow> 'a list \<Rightarrow> nat \<Rightarrow> nat \<Rightarrow> nat \<Rightarrow> 'a list" where
  "partial_sort cmp xs first middle lst =
     sort_heap cmp (heap_select cmp xs first middle lst) first middle"

text \<open>
  \<open>std::__introsort_loop\<close>: while the range is longer than 16, partition it around
  the median of three, sort the right part by a recursive call and go on with the left
  part; at depth 0, heap sort.
\<close>

fun introsort_loop ::
  "('a \<Rightarrow> 'a \<Rightarrow> bool) \<Rightarrow> 'a list \<Rightarrow> nat \<Rightarrow> nat \<Rightarrow> nat \<Rightarrow> 'a list" where
  "introsort_loop cmp xs first lst 0 =
     (if S_threshold < lst - first then partial_sort cmp xs first lst lst else xs)"
| "introsort_loop cmp xs first lst (Suc depth_limit) =
     (if S_threshold < lst - first
      then let (ys, cut) = unguarded_partition_pivot cmp xs first lst;
               zs = introsort_loop cmp ys cut lst depth_limit
           in introsort_loop cmp zs first cut depth_limit
      else xs)"

text \<open>
  \<open>std::__sort\<close>: the introsort loop with depth limit \<open>2 * lg n\<close>, then the final
  insertion sort.
\<close>

definition gnu_sort :: "'a sorter" where
  "gnu_sort cmp xs =
     (if xs = [] then xs
      else final_insertion_sort cmp
             (introsort_loop cmp xs 0 (length xs) (lg (length xs) * 2)) 0 (length xs))"

section \<open>The outside world\<close>

text \<open>
  libcurl, the C library and the file system are not part of the program. Their calls
  take the state of the world \<open>'w\<close> and return their result with the new state:
  \<^item> \<open>curl_easy_init\<close>: whether a handle was returned;
  \<^item> \<open>curl_easy_perform url\<close>: the \<open>CURLcode\<close> (0 is \<open>CURLE_OK\<close>) and the blocks of the
    body handed to the write callback;
  \<^item> \<open>fopen path\<close> (mode \<open>wb\<close>): whether a stream was returned;
  \<^item> \<open>system command\<close>: the status;
  \<^item> \<open>create_directories path\<close>: \<open>False\<close> when it throws \<open>filesystem_error\<close>.
\<close>

record 'w env =
  curl_easy_init :: "'w \<Rightarrow> bool \<times> 'w"
  curl_easy_perform :: "string \<Rightarrow> 'w \<Rightarrow> (nat \<times> string list) \<times> 'w"
  curl_easy_strerror :: "nat \<Rightarrow> string"
  fopen :: "string \<Rightarrow> 'w \<Rightarrow> bool \<times> 'w"
  system :: "string \<Rightarrow> 'w \<Rightarrow> int \<times> 'w"
  create_directories :: "string \<Rightarrow> 'w \<Rightarrow> bool \<times> 'w"
  load_string :: loader
  std_sort :: "EpisodeInfo sorter"

record 'w state =
  world :: 'w
  trace :: "event list"

definition emit :: "event \<Rightarrow> 'w state \<Rightarrow> 'w state" where
  "emit ev st = st\<lparr>trace := trace st @ [ev]\<rparr>"

definition CURLE_OK :: nat where
  "CURLE_OK = 0"

section \<open>std::to_string\<close>

definition digit_char :: "nat \<Rightarrow> char" where
  "digit_char d = char_of (48 + d)"

fun nat_to_string :: "nat \<Rightarrow> string" where
  "nat_to_string n =
     (if n < 10 then [digit_char n] else nat_to_string (n div 10) @ [digit_char (n mod 10)])"

declare nat_to_string.simps [simp del]

definition to_string :: "int \<Rightarrow> string" where
  "to_string i = (if i < 0 then CHR ''-'' # nat_to_string (nat (- i)) else nat_to_string (nat i))"

section \<open>setTrackNumber\<close>

definition dquote :: string where
  "dquote = [CHR 0x22]"

definition tag_command :: "string \<Rightarrow> EpisodeInfo \<Rightarrow> string" where
  "tag_command filePath episode =
     ''id3v2 --track '' @ to_string (episodeNumber episode) @ '' --song '' @ dquote
       @ name episode @ dquote @ '' '' @ dquote @ filePath @ dquote"

definition setTrackNumber :: "'w env \<Rightarrow> string \<Rightarrow> EpisodeInfo \<Rightarrow> 'w state \<Rightarrow> 'w state" where
  "setTrackNumber env filePath episode st =
     (let command = tag_command filePath episode;
          (result, w) = system env (c_str command) (world st);
          st1 = emit (System (c_str command)) (st\<lparr>world := w\<rparr>)
      in if result \<noteq> 0 then emit (Cerr ''Error setting track number.'') st1
         else emit (Cout ''Track number set successfully.'') st1)"

section \<open>downloadContent\<close>

definition download_path :: "EpisodeInfo \<Rightarrow> string" where
  "download_path episode = ''Downloads/'' @ name episode @ ''.mp3''"

definition downloadContent :: "'w env \<Rightarrow> EpisodeInfo \<Rightarrow> 'w state \<Rightarrow> 'w state" where
  "downloadContent env episode st =
     (let (curl, w1) = curl_easy_init env (world st) in
      if \<not> curl then emit (Cerr ''Error initializing curl for download.'') (st\<lparr>world := w1\<rparr>)
      else
        let (file, w2) = fopen env (c_str (download_path episode)) w1;
            st2 = emit (File_open (c_str (download_path episode))) (st\<lparr>world := w2\<rparr>)
        in if \<not> file then emit (Cerr ''Error opening file for writing.'') st2
           else
             let ((res, body), w3) = curl_easy_perform env (c_str (link episode)) w2;
                 st3 = emit (Http_get (c_str (link episode))) (st2\<lparr>world := w3\<rparr>);
                 st4 = (if res \<noteq> CURLE_OK
                        then emit (Cerr (''curl_easy_perform() failed for download: ''
                                          @ curl_easy_strerror env res)) st3
                        else st3)
             in setTrackNumber env (download_path episode) episode st4)"

section \<open>main\<close>

text \<open>
  \<open>writeCallback\<close> appends the block to the string and returns its size; \<open>contents\<close> is
  the block, of \<open>size * nmemb\<close> bytes.
\<close>

definition writeCallback :: "string \<Rightarrow> string \<Rightarrow> nat \<times> string" where
  "writeCallback contents output = (length contents, output @ contents)"

text \<open>The body of the two \<open>for\<close> loops over the sorted episodes.\<close>

definition show_and_download :: "'w env \<Rightarrow> EpisodeInfo \<Rightarrow> 'w state \<Rightarrow> 'w state" where
  "show_and_download env episode st =
     emit (Cout ''----------------------'')
       (downloadContent env episode
         (emit (Cout (''Episode Number: '' @ to_string (episodeNumber episode)))
           (emit (Cout (''Link: '' @ link episode))
             (emit (Cout (''Title: '' @ name episode)) st))))"

fun download_all :: "'w env \<Rightarrow> EpisodeInfo list \<Rightarrow> 'w state \<Rightarrow> 'w state" where
  "download_all env [] st = st"
| "download_all env (episode # episodes) st =
     download_all env episodes (show_and_download env episode st)"

text \<open>
  How the process ends: \<open>return n\<close> from \<open>main\<close>, or \<open>std::terminate\<close> on an exception
  that nothing catches, or (with an empty \<open>argv\<close>, where \<open>argv[1]\<close> is read past the
  terminating null) undefined behaviour.
\<close>

datatype outcome = Exit int | Terminate exn | Undefined

text \<open>
  \<open>main\<close> writes the same parse, sort and loop twice, once per pattern: \<open>series_pass\<close>
  is that text, with the pattern as its parameter. The vector starts empty.
\<close>

definition series_episodes :: "'w env \<Rightarrow> pattern \<Rightarrow> string \<Rightarrow> event list \<times> (exn + EpisodeInfo list)" where
  "series_episodes env pat responseData =
     (case parseRssFeed (load_string env) pat responseData [] of
        (errs, Inl e) \<Rightarrow> (errs, Inl e)
      | (errs, Inr episodes) \<Rightarrow> (errs, Inr (sequencer (std_sort env) episodes)))"

definition series_pass :: "'w env \<Rightarrow> pattern \<Rightarrow> string \<Rightarrow> 'w state \<Rightarrow> exn + 'w state" where
  "series_pass env pat responseData st =
     (case series_episodes env pat responseData of
        (errs, Inl e) \<Rightarrow> Inl e
      | (errs, Inr episodes) \<Rightarrow>
          Inr (download_all env episodes (st\<lparr>trace := trace st @ errs\<rparr>)))"

definition main :: "'w env \<Rightarrow> string list \<Rightarrow> 'w state \<Rightarrow> outcome \<times> 'w state" where
  "main env argv st =
     (case argv of
        [] \<Rightarrow> (Undefined, st)
      | [_] \<Rightarrow> (Exit 1, emit (Cerr ''Add your patreon URL'') st)
      | _ # arg # _ \<Rightarrow>
          let url = c_str arg;
              st1 = emit (Cout url) st;
              (made, w2) = create_directories env ''Downloads'' (world st1);
              st2 = emit (Mkdir ''Downloads'') (st1\<lparr>world := w2\<rparr>)
          in if \<not> made then (Terminate Filesystem_error, st2)
             else
               let (curl, w3) = curl_easy_init env (world st2) in
               if \<not> curl then (Exit 1, emit (Cerr ''Error initializing curl.'') (st2\<lparr>world := w3\<rparr>))
               else
                 let ((res, blocks), w4) = curl_easy_perform env url w3;
                     responseData = foldl (\<lambda>output contents. snd (writeCallback contents output)) [] blocks;
                     st4 = emit (Http_get url) (st2\<lparr>world := w4\<rparr>)
                 in if res \<noteq> CURLE_OK
                    then (Exit 1, emit (Cerr (''curl_easy_perform() failed: ''
                                              @ curl_easy_strerror env res)) st4)
                    else
                      (case series_pass env mag_pattern responseData st4 of
                         Inl e \<Rightarrow> (Terminate e, st4)
                       | Inr st5 \<Rightarrow>
                           (case series_pass env protocol_pattern responseData st5 of
                              Inl e \<Rightarrow> (Terminate e, st5)
                            | Inr st6 \<Rightarrow> (Exit 0, st6))))"

section \<open>A feed and a world to run the program on\<close>

text \<open>The document of a feed: \<open>rss\<close>, in it \<open>channel\<close>, in it the items.\<close>

definition feed_of :: "xml_node list \<Rightarrow> xml_node list" where
  "feed_of items = [Element ''rss'' [(''version'', ''2.0'')] [Element ''channel'' [] items]]"

definition feed_item :: "string \<Rightarrow> string \<Rightarrow> xml_node" where
  "feed_item title url =
     Element ''item'' []
       [Element ''title'' [] [PCData title],
        Element ''enclosure'' [(''url'', url), (''type'', ''audio/mpeg'')] []]"

text \<open>
  A world that counts the calls made to it. \<open>code_of\<close> gives the \<open>CURLcode\<close> of a
  transfer by its URL, \<open>body_of\<close> the blocks of its body, \<open>can_open\<close> whether a path
  can be opened for writing; the tagging tool always succeeds.
\<close>

definition scripted_env ::
  "loader \<Rightarrow> (string \<Rightarrow> nat) \<Rightarrow> (string \<Rightarrow> string list) \<Rightarrow> (string \<Rightarrow> bool) \<Rightarrow> nat env" where
  "scripted_env ld code_of body_of can_open =
     \<lparr>curl_easy_init = (\<lambda>w. (True, Suc w)),
      curl_easy_perform = (\<lambda>url w. ((code_of url, body_of url), Suc w)),
      curl_easy_strerror =
        (\<lambda>c. if c = 6 then ''Could not resolve hostname''
             else if c = 7 then ''Could not connect to server'' else ''Error''),
      fopen = (\<lambda>path w. (can_open path, Suc w)),
      system = (\<lambda>command w. (0, Suc w)),
      create_directories = (\<lambda>path w. (True, Suc w)),
      load_string = ld,
      std_sort = stable_sort\<rparr>"

definition start :: "nat state" where
  "start = \<lparr>world = 0, trace = []\<rparr>"

text \<open>The feed of the end-to-end scenario, and a world that serves it.\<close>

definition two_series_feed :: "xml_node list" where
  "two_series_feed =
     feed_of [feed_item ''MAG 3'' ''http://cdn/m3.mp3'',
              feed_item ''The Magnus Protocol 1'' ''http://cdn/p1.mp3'']"

definition online_env :: "nat env" where
  "online_env =
     scripted_env (\<lambda>x. Inr two_series_feed) (\<lambda>u. 0)
       (\<lambda>u. if u = ''http://feed'' then [''<rss>'', ''</rss>''] else []) (\<lambda>p. True)"

text \<open>A world in which no host name resolves.\<close>

definition offline_env :: "nat env" where
  "offline_env = scripted_env (\<lambda>x. Inr []) (\<lambda>u. 6) (\<lambda>u. []) (\<lambda>p. True)"

text \<open>A feed of one series: three numbered episodes, a trailer and a title with no number.\<close>

definition mag_feed :: "xml_node list" where
  "mag_feed =
     feed_of [feed_item ''MAG 101'' ''http://cdn/101.mp3'',
              feed_item ''Trailer'' ''http://cdn/t.mp3'',
              feed_item ''MAG 12'' ''http://cdn/12.mp3'',
              feed_item ''MAG'' ''http://cdn/0.mp3'',
              feed_item ''MAG 7'' ''http://cdn/7.mp3'']"

section \<open>Titles of a series\<close>

text \<open>
  What it is for a title to carry the mark of a series, said of the string alone: the
  series prefix, in any case, directly followed by a digit. \<open>marker_at\<close> is the mark
  at the start of the string, \<open>has_marker\<close> the mark anywhere in it, and
  \<open>marker_number\<close> the digits that follow the first mark from the left.
\<close>

definition ci_equal :: "string \<Rightarrow> string \<Rightarrow> bool" where
  "ci_equal a b = (map to_lower a = map to_lower b)"

definition marker_at :: "string \<Rightarrow> string \<Rightarrow> bool" where
  "marker_at prefix s =
     (ci_equal (take (length prefix) s) prefix \<and>
      (case drop (length prefix) s of [] \<Rightarrow> False | d # _ \<Rightarrow> is_digit d))"

fun has_marker :: "string \<Rightarrow> string \<Rightarrow> bool" where
  "has_marker prefix [] = False"
| "has_marker prefix (x # xs) = (marker_at prefix (x # xs) \<or> has_marker prefix xs)"

fun marker_number :: "string \<Rightarrow> string \<Rightarrow> string" where
  "marker_number prefix [] = []"
| "marker_number prefix (x # xs) =
     (if marker_at prefix (x # xs) then takeWhile is_digit (drop (length prefix) (x # xs))
      else marker_number prefix xs)"

text \<open>
  A loader that knows one document: it accepts the text \<open>one_item_text\<close>, a feed with
  the single item \<open>MAG 1\<close> and no enclosure, and rejects every other text.
\<close>

definition one_item_text :: string where
  "one_item_text = ''<rss><channel><item><title>MAG 1</title></item></channel></rss>''"

definition one_item_doc :: "xml_node list" where
  "one_item_doc =
     [Element ''rss'' [] [Element ''channel'' []
        [Element ''item'' [] [Element ''title'' [] [PCData ''MAG 1'']]]]]"

definition strict_loader :: loader where
  "strict_loader s =
     (if s = one_item_text then Inr one_item_doc else Inl ''Error parsing document'')"

text \<open>A feed whose items lack children: no enclosure, no \<open>url\<close>, no title.\<close>

definition bare_feed :: "xml_node list" where
  "bare_feed =
     feed_of [Element ''item'' [] [Element ''title'' [] [PCData ''MAG 12'']],
              Element ''item'' [] [Element ''title'' [] [PCData ''MAG 7''],
                                   Element ''enclosure'' [(''length'', ''1'')] []],
              Element ''item'' [] [Element ''enclosure'' [(''url'', ''http://cdn/x.mp3'')] []]]"

text \<open>Seventeen records of one episode, in feed order.\<close>

definition seventeen_parts :: "EpisodeInfo list" where
  "seventeen_parts =
     map (\<lambda>k. \<lparr>name = ''MAG 5 part '' @ to_string (int k),
               link = ''http://cdn/5-'' @ to_string (int k) @ ''.mp3'',
               episodeNumber = 5\<rparr>) [1..<18]"

text \<open>
  A title that is a series prefix, in any case, followed by the digits of a number and
  nothing else, such as \<open>MAG 3\<close> and \<open>The Magnus Protocol 1\<close>.
\<close>

definition plain_title :: "string \<Rightarrow> string \<Rightarrow> bool" where
  "plain_title prefix title =
     (ci_equal (take (length prefix) title) prefix \<and>
      drop (length prefix) title \<noteq> [] \<and>
      list_all is_digit (drop (length prefix) title))"

text \<open>A world whose feed has one item that names both series.\<close>

definition crossover_env :: "nat env" where
  "crossover_env =
     scripted_env
       (\<lambda>x. Inr (feed_of [feed_item ''MAG 3 - The Magnus Protocol 12'' ''http://cdn/x.mp3'']))
       (\<lambda>u. 0) (\<lambda>u. []) (\<lambda>p. True)"

section \<open>The comparator and a sort that keeps the contract\<close>

lemma episode_less_swo: "strict_weak_order episode_less"
  by (auto simp: strict_weak_order_def episode_less_def)

lemma contract_mset:
  "sort_contract srt \<Longrightarrow> mset (sequencer srt eps) = mset eps"
  using episode_less_swo by (auto simp: sort_contract_def sequencer_def)

lemma contract_sorted_keys:
  assumes "sort_contract srt"
  shows "sorted (map episodeNumber (sequencer srt eps))"
proof -
  have "sorted_wrt (\<lambda>a b. \<not> episode_less b a) (sequencer srt eps)"
    using assms episode_less_swo by (auto simp: sort_contract_def sequencer_def)
  then have "sorted_wrt (\<lambda>a b. episodeNumber a \<le> episodeNumber b) (sequencer srt eps)"
    by (rule sorted_wrt_mono_rel[rotated]) (simp add: episode_less_def)
  then show ?thesis
    by (simp add: sorted_wrt_map)
qed

lemma insert_before_mset: "mset (insert_before cmp x ys) = add_mset x (mset ys)"
  by (induction ys) auto

lemma insert_before_set: "set (insert_before cmp x ys) = insert x (set ys)"
  by (induction ys) auto

lemma insert_before_sorted:
  assumes "strict_weak_order cmp" and "sorted_wrt (\<lambda>a b. \<not> cmp b a) ys"
  shows "sorted_wrt (\<lambda>a b. \<not> cmp b a) (insert_before cmp x ys)"
  using assms(2)
proof (induction ys)
  case Nil
  then show ?case by simp
next
  case (Cons y ys)
  have irr: "\<And>a. \<not> cmp a a" and tr: "\<And>a b c. cmp a b \<Longrightarrow> cmp b c \<Longrightarrow> cmp a c"
    and inc: "\<And>a b c. \<not> cmp a b \<Longrightarrow> \<not> cmp b a \<Longrightarrow> \<not> cmp b c \<Longrightarrow> \<not> cmp c b \<Longrightarrow> \<not> cmp c a"
    using assms(1) unfolding strict_weak_order_def by blast+
  show ?case
  proof (cases "cmp y x")
    case True
    then have "\<not> cmp x y" using irr tr by blast
    with True Cons show ?thesis
      by (auto simp: insert_before_set)
  next
    case False
    have "\<not> cmp z x" if "z \<in> set ys" for z
    proof
      assume zx: "cmp z x"
      have nzy: "\<not> cmp z y" using Cons.prems that by simp
      show False
      proof (cases "cmp x y")
        case True
        then show ?thesis using zx nzy tr by blast
      next
        case xy: False
        show ?thesis
        proof (cases "cmp y z")
          case True
          then show ?thesis using zx False tr by blast
        next
          case yz: False
          from inc[OF xy False yz nzy] zx show ?thesis by blast
        qed
      qed
    qed
    with False Cons.prems show ?thesis by auto
  qed
qed

lemma stable_sort_contract: "sort_contract stable_sort"
  unfolding sort_contract_def
proof (intro allI impI conjI)
  fix cmp :: "'a \<Rightarrow> 'a \<Rightarrow> bool" and xs
  assume swo: "strict_weak_order cmp"
  show "mset (stable_sort cmp xs) = mset xs"
    by (induction xs) (simp_all add: stable_sort_def insert_before_mset)
  show "sorted_wrt (\<lambda>a b. \<not> cmp b a) (stable_sort cmp xs)"
    by (induction xs) (simp_all add: stable_sort_def insert_before_sorted[OF swo])
qed

section \<open>The sequencer sorts\<close>

text \<open>
  C3. Given a \<open>std::sort\<close> that keeps the standard's contract, the sequencer returns a
  permutation of its input (the same records, each as often) in which every record's
  episode number is at most its successor's. It is a function of the list alone and
  has no failing result; nothing is said, or needed, about records with equal numbers.
\<close>

theorem sequencer_sorted_permutation:
  assumes "sort_contract srt"
  shows "mset (sequencer srt episodes) = mset episodes \<and>
         length (sequencer srt episodes) = length episodes \<and>
         (\<forall>i. Suc i < length (sequencer srt episodes) \<longrightarrow>
            episodeNumber (sequencer srt episodes ! i)
              \<le> episodeNumber (sequencer srt episodes ! Suc i))"
proof -
  have m: "mset (sequencer srt episodes) = mset episodes"
    using assms by (rule contract_mset)
  have s: "sorted (map episodeNumber (sequencer srt episodes))"
    using assms by (rule contract_sorted_keys)
  have "episodeNumber (sequencer srt episodes ! i) \<le> episodeNumber (sequencer srt episodes ! Suc i)"
    if "Suc i < length (sequencer srt episodes)" for i
    using sorted_nth_mono[OF s, of i "Suc i"] that by simp
  with m mset_eq_length[OF m] show ?thesis by blast
qed

theorem sequencer_sorted_permutation_witness:
  "sort_contract (stable_sort :: EpisodeInfo sorter) \<and>
   sequencer stable_sort
     [\<lparr>name = ''MAG 101'', link = ''a'', episodeNumber = 101\<rparr>,
      \<lparr>name = ''MAG 12'', link = ''b'', episodeNumber = 12\<rparr>,
      \<lparr>name = ''MAG 7'', link = ''c'', episodeNumber = 7\<rparr>]
   = [\<lparr>name = ''MAG 7'', link = ''c'', episodeNumber = 7\<rparr>,
      \<lparr>name = ''MAG 12'', link = ''b'', episodeNumber = 12\<rparr>,
      \<lparr>name = ''MAG 101'', link = ''a'', episodeNumber = 101\<rparr>] \<and>
   mset (sequencer stable_sort
     [\<lparr>name = ''MAG 101'', link = ''a'', episodeNumber = 101\<rparr>,
      \<lparr>name = ''MAG 12'', link = ''b'', episodeNumber = 12\<rparr>,
      \<lparr>name = ''MAG 7'', link = ''c'', episodeNumber = 7\<rparr>])
   = mset [\<lparr>name = ''MAG 101'', link = ''a'', episodeNumber = 101\<rparr>,
      \<lparr>name = ''MAG 12'', link = ''b'', episodeNumber = 12\<rparr>,
      \<lparr>name = ''MAG 7'', link = ''c'', episodeNumber = 7\<rparr>]"
  using sequencer_sorted_permutation[OF stable_sort_contract,
     of "[\<lparr>name = ''MAG 101'', link = ''a'', episodeNumber = 101\<rparr>,
      \<lparr>name = ''MAG 12'', link = ''b'', episodeNumber = 12\<rparr>,
      \<lparr>name = ''MAG 7'', link = ''c'', episodeNumber = 7\<rparr>]"]
    stable_sort_contract[where 'a = EpisodeInfo]
  by (simp add: sequencer_def stable_sort_def episode_less_def)

section \<open>The example feed\<close>

lemma select_items_feed_of: "select_items (feed_of items) = filter (\<lambda>c. node_name c = ''item'') items"
  by (simp add: select_items_def feed_of_def step_child_def)

lemma item_name_feed_item: "item_name (feed_item t u) = t"
  by (simp add: item_name_def feed_item_def child_def text_get_def)

lemma item_link_feed_item: "item_link (feed_item t u) = u"
  by (simp add: item_link_def feed_item_def child_def attribute_value_def)

lemma node_name_feed_item: "node_name (feed_item t u) = ''item''"
  by (simp add: feed_item_def)

section \<open>A title that matches inside\<close>

lemma mag_5_bonus_search:
  "map_option (\<lambda>m. sub_match m 1) (regex_search ''mag 5 bonus'' mag_pattern) = Some ''5''"
  by code_simp

lemma stoi_5: "stoi ''5'' = Inr 5"
  by code_simp

text \<open>
  C6. The title \<open>mag 5 bonus\<close> matches the case-insensitive pattern \<open>MAG (\d+)\<close>,
  although the match covers only its first five characters, with first sub-match \<open>5\<close>;
  the parser, on a feed whose only item has that title, adds one record with episode
  number 5.
\<close>

theorem mag_5_bonus:
  assumes "ld (c_str xmlData) = Inr doc" and "select_items doc = [item]"
    and "item_name item = ''mag 5 bonus''"
  shows "(\<exists>m. regex_search ''mag 5 bonus'' mag_pattern = Some m \<and> sub_match m 1 = ''5'') \<and>
         parseRssFeed ld mag_pattern xmlData episodes =
           ([], Inr (episodes @ [\<lparr>name = ''mag 5 bonus'', link = item_link item, episodeNumber = 5\<rparr>]))"
proof -
  obtain m where m: "regex_search ''mag 5 bonus'' mag_pattern = Some m" "sub_match m 1 = ''5''"
    using mag_5_bonus_search by (cases "regex_search ''mag 5 bonus'' mag_pattern") auto
  have "parse_item mag_pattern item episodes =
          Inr (episodes @ [\<lparr>name = ''mag 5 bonus'', link = item_link item, episodeNumber = 5\<rparr>])"
    using m assms(3) stoi_5 by (simp add: parse_item_def)
  with m assms(1,2) show ?thesis
    by (simp add: parseRssFeed_def)
qed

theorem mag_5_bonus_witness:
  "parseRssFeed (\<lambda>x. Inr (feed_of [feed_item ''mag 5 bonus'' ''http://cdn/5.mp3'']))
      mag_pattern ''<rss/>'' [] =
    ([], Inr [\<lparr>name = ''mag 5 bonus'', link = ''http://cdn/5.mp3'', episodeNumber = 5\<rparr>])"
  using mag_5_bonus[of "\<lambda>x. Inr (feed_of [feed_item ''mag 5 bonus'' ''http://cdn/5.mp3''])"
      "''<rss/>''" "feed_of [feed_item ''mag 5 bonus'' ''http://cdn/5.mp3'']"
      "feed_item ''mag 5 bonus'' ''http://cdn/5.mp3''" "[]"]
  by (simp add: select_items_feed_of item_name_feed_item item_link_feed_item node_name_feed_item)

section \<open>Sorting nothing\<close>

lemma sequencer_Nil: "sort_contract srt \<Longrightarrow> sequencer srt [] = []"
  using contract_mset[of srt "[]"] by simp

section \<open>Every match consumes input\<close>

lemma rmatch_shorter:
  "(s', cs') \<in> set (rmatch ic r s cs) \<Longrightarrow> length s' < length s"
proof (induction ic r s cs arbitrary: s' cs' rule: rmatch.induct)
  case (1 ic c s cs)
  then show ?case by (auto split: list.splits if_splits)
next
  case (2 ic s cs)
  then show ?case by (auto split: list.splits if_splits)
next
  case (3 ic a b s cs)
  from "3.prems" obtain s1 cs1 where
    a: "(s1, cs1) \<in> set (rmatch ic a s cs)" and b: "(s', cs') \<in> set (rmatch ic b s1 cs1)"
    by auto
  from "3.IH"(1)[OF a] "3.IH"(2)[OF a refl b] show ?case by simp
next
  case (4 ic a s cs)
  from "4.prems" obtain s1 cs1 where
    a: "(s1, cs1) \<in> set (rmatch ic a s cs)"
    and b: "(length s1 < length s \<and> (s', cs') \<in> set (rmatch ic (Plus a) s1 cs1)) \<or> (s', cs') = (s1, cs1)"
    unfolding rmatch.simps(4)[of ic a s cs] by (auto split: if_splits)
  from "4.IH"(1)[OF a] have l: "length s1 < length s" .
  from b show ?case
  proof
    assume "length s1 < length s \<and> (s', cs') \<in> set (rmatch ic (Plus a) s1 cs1)"
    then have "length s' < length s1"
      using "4.IH"(2)[OF a refl] by blast
    with l show ?thesis by simp
  next
    assume "(s', cs') = (s1, cs1)"
    with l show ?thesis by simp
  qed
next
  case (5 ic n a s cs)
  then show ?case by auto
qed

lemma rmatch_Nil: "rmatch ic r [] cs = []"
proof (cases "rmatch ic r [] cs")
  case Nil
  then show ?thesis .
next
  case (Cons p ps)
  then have "(fst p, snd p) \<in> set (rmatch ic r [] cs)" by simp
  from rmatch_shorter[OF this] show ?thesis by simp
qed

lemma regex_search_Nil: "regex_search [] pat = None"
  by (simp add: regex_search_def rmatch_Nil)

lemma stoi_12: "stoi ''12'' = Inr 12"
  by code_simp


section \<open>The trace only grows, and every episode is shown\<close>

lemma trace_emit: "trace (emit ev st) = trace st @ [ev]"
  by (simp add: emit_def)

lemma setTrackNumber_trace:
  "\<exists>evs. trace (setTrackNumber env path e st) = trace st @ evs"
  by (auto simp: setTrackNumber_def Let_def trace_emit split: prod.splits)

lemma downloadContent_trace:
  "\<exists>evs. trace (downloadContent env e st) = trace st @ evs"
proof -
  have *: "\<exists>evs. trace (setTrackNumber env path e st') = trace st @ evs"
    if "\<exists>evs'. trace st' = trace st @ evs'" for st' path
    using setTrackNumber_trace[of env path e st'] that by auto
  show ?thesis
    unfolding downloadContent_def Let_def
    by (auto simp: trace_emit split: prod.splits intro!: *)
qed

lemma show_and_download_trace:
  "\<exists>evs. trace (show_and_download env e st) =
     trace st @ Cout (''Title: '' @ name e) # evs"
proof -
  let ?st3 = "emit (Cout (''Episode Number: '' @ to_string (episodeNumber e)))
           (emit (Cout (''Link: '' @ link e))
             (emit (Cout (''Title: '' @ name e)) st))"
  obtain evs where "trace (downloadContent env e ?st3) = trace ?st3 @ evs"
    using downloadContent_trace by blast
  then show ?thesis
    by (simp add: show_and_download_def trace_emit)
qed

lemma download_all_trace:
  "\<exists>evs. trace (download_all env es st) = trace st @ evs"
proof (induction es arbitrary: st)
  case Nil
  then show ?case by simp
next
  case (Cons e es)
  obtain evs1 where 1: "trace (show_and_download env e st) = trace st @ Cout (''Title: '' @ name e) # evs1"
    using show_and_download_trace by blast
  obtain evs2 where "trace (download_all env es (show_and_download env e st)) =
      trace (show_and_download env e st) @ evs2"
    using Cons.IH by blast
  with 1 show ?case by simp
qed

lemma download_all_titles:
  "e \<in> set es \<Longrightarrow> Cout (''Title: '' @ name e) \<in> set (trace (download_all env es st))"
proof (induction es arbitrary: st)
  case Nil
  then show ?case by simp
next
  case (Cons x es)
  show ?case
  proof (cases "e = x")
    case True
    obtain evs1 where 1: "trace (show_and_download env x st) = trace st @ Cout (''Title: '' @ name x) # evs1"
      using show_and_download_trace by blast
    obtain evs2 where "trace (download_all env es (show_and_download env x st)) =
        trace (show_and_download env x st) @ evs2"
      using download_all_trace by blast
    with 1 True show ?thesis by simp
  next
    case False
    with Cons.prems have "e \<in> set es" by simp
    from Cons.IH[OF this] show ?thesis by simp
  qed
qed

section \<open>A destination that cannot be opened\<close>

text \<open>
  C7. When the handle is there and \<open>fopen\<close> of the destination fails,
  \<open>downloadContent\<close> writes \<open>Error opening file for writing.\<close> to standard error and
  returns: no transfer is made and the tagging tool is not run (the events it adds are
  the attempt to open and the message, nothing else). The loop then goes on with the
  remaining episodes from that state, and the title of each of them is printed.
\<close>

theorem fopen_failure:
  assumes "curl_easy_init env (world st) = (True, w1)"
    and "fopen env (c_str (download_path episode)) w1 = (False, w2)"
  shows "downloadContent env episode st =
           st\<lparr>world := w2,
              trace := trace st @ [File_open (c_str (download_path episode)),
                                   Cerr ''Error opening file for writing.'']\<rparr> \<and>
         download_all env (episode # episodes) st =
           download_all env episodes
             (st\<lparr>world := w2,
                 trace := trace st @
                   [Cout (''Title: '' @ name episode),
                    Cout (''Link: '' @ link episode),
                    Cout (''Episode Number: '' @ to_string (episodeNumber episode)),
                    File_open (c_str (download_path episode)),
                    Cerr ''Error opening file for writing.'',
                    Cout ''----------------------'']\<rparr>) \<and>
         (\<forall>e \<in> set episodes.
            Cout (''Title: '' @ name e)
              \<in> set (trace (download_all env (episode # episodes) st)))"
proof (intro conjI ballI)
  show "downloadContent env episode st =
           st\<lparr>world := w2,
              trace := trace st @ [File_open (c_str (download_path episode)),
                                   Cerr ''Error opening file for writing.'']\<rparr>"
    using assms by (simp add: downloadContent_def emit_def)
  show "download_all env (episode # episodes) st =
           download_all env episodes
             (st\<lparr>world := w2,
                 trace := trace st @
                   [Cout (''Title: '' @ name episode),
                    Cout (''Link: '' @ link episode),
                    Cout (''Episode Number: '' @ to_string (episodeNumber episode)),
                    File_open (c_str (download_path episode)),
                    Cerr ''Error opening file for writing.'',
                    Cout ''----------------------'']\<rparr>)"
    using assms by (simp add: show_and_download_def downloadContent_def emit_def)
  fix e assume "e \<in> set episodes"
  then have "e \<in> set (episode # episodes)" by simp
  then show "Cout (''Title: '' @ name e) \<in> set (trace (download_all env (episode # episodes) st))"
    by (rule download_all_titles)
qed

theorem fopen_failure_witness:
  "downloadContent (scripted_env (\<lambda>x. Inr []) (\<lambda>u. 0) (\<lambda>u. []) (\<lambda>p. p \<noteq> ''Downloads/MAG 1/2.mp3''))
      \<lparr>name = ''MAG 1/2'', link = ''http://cdn/1.mp3'', episodeNumber = 1\<rparr> start =
     \<lparr>world = 2, trace = [File_open ''Downloads/MAG 1/2.mp3'',
                           Cerr ''Error opening file for writing.'']\<rparr> \<and>
   trace (download_all (scripted_env (\<lambda>x. Inr []) (\<lambda>u. 0) (\<lambda>u. []) (\<lambda>p. p \<noteq> ''Downloads/MAG 1/2.mp3''))
      [\<lparr>name = ''MAG 1/2'', link = ''http://cdn/1.mp3'', episodeNumber = 1\<rparr>,
       \<lparr>name = ''MAG 2'', link = ''http://cdn/2.mp3'', episodeNumber = 2\<rparr>] start) =
     [Cout ''Title: MAG 1/2'', Cout ''Link: http://cdn/1.mp3'', Cout ''Episode Number: 1'',
      File_open ''Downloads/MAG 1/2.mp3'', Cerr ''Error opening file for writing.'',
      Cout ''----------------------'',
      Cout ''Title: MAG 2'', Cout ''Link: http://cdn/2.mp3'', Cout ''Episode Number: 2'',
      File_open ''Downloads/MAG 2.mp3'', Http_get ''http://cdn/2.mp3'',
      System (''id3v2 --track 2 --song '' @ dquote @ ''MAG 2'' @ dquote @ '' '' @ dquote
                @ ''Downloads/MAG 2.mp3'' @ dquote),
      Cout ''Track number set successfully.'',
      Cout ''----------------------'']"
proof -
  let ?env = "scripted_env (\<lambda>x. Inr []) (\<lambda>u. 0) (\<lambda>u. []) (\<lambda>p. p \<noteq> ''Downloads/MAG 1/2.mp3'')"
  let ?e1 = "\<lparr>name = ''MAG 1/2'', link = ''http://cdn/1.mp3'', episodeNumber = 1\<rparr>"
  let ?e2 = "\<lparr>name = ''MAG 2'', link = ''http://cdn/2.mp3'', episodeNumber = 2\<rparr>"
  have i: "curl_easy_init ?env (world start) = (True, 1)"
    by (simp add: scripted_env_def start_def)
  have f: "fopen ?env (c_str (download_path ?e1)) 1 = (False, 2)"
    by (simp add: scripted_env_def download_path_def c_str_def code_def)
  have n1: "to_string 1 = ''1''" and n2: "to_string 2 = ''2''"
    by code_simp+
  note fopen_failure[OF i f, of "[?e2]"]
  then show ?thesis
    by (simp add: start_def download_path_def show_and_download_def downloadContent_def
        setTrackNumber_def tag_command_def emit_def scripted_env_def n1 n2 CURLE_OK_def
        c_str_def code_def dquote_def)
qed

section \<open>A transfer that fails\<close>

lemma to_string_3: "to_string 3 = ''3''"
  by code_simp

text \<open>
  C2. What \<open>downloadContent\<close> does when the transfer fails. In a world where the handle
  is there, the file opens and \<open>curl_easy_perform\<close> returns 7, the episode \<open>MAG 3\<close>
  is reported on standard error as failed, and then the function goes on: it runs the
  tagging tool on the file all the same. The two earlier failures of the function (no
  handle, no file) return before that; this one does not.
\<close>

theorem transfer_failure_still_tags:
  "downloadContent (scripted_env (\<lambda>x. Inr []) (\<lambda>u. 7) (\<lambda>u. []) (\<lambda>p. True))
      \<lparr>name = ''MAG 3'', link = ''http://cdn/3.mp3'', episodeNumber = 3\<rparr> start =
     \<lparr>world = 4,
      trace = [File_open ''Downloads/MAG 3.mp3'',
               Http_get ''http://cdn/3.mp3'',
               Cerr ''curl_easy_perform() failed for download: Could not connect to server'',
               System (''id3v2 --track 3 --song '' @ dquote @ ''MAG 3'' @ dquote @ '' '' @ dquote
                         @ ''Downloads/MAG 3.mp3'' @ dquote),
               Cout ''Track number set successfully.'']\<rparr>"
  by (simp add: start_def download_path_def downloadContent_def
        setTrackNumber_def tag_command_def emit_def scripted_env_def to_string_3 CURLE_OK_def
        c_str_def code_def dquote_def)

section \<open>How the process ends\<close>

lemma response_concat:
  "foldl (\<lambda>output contents. snd (writeCallback contents output)) acc blocks = acc @ concat blocks"
  by (induction blocks arbitrary: acc) (simp_all add: writeCallback_def)

lemma series_pass_isl:
  "isl (series_pass env pat data st) = isl (snd (series_episodes env pat data))"
  by (auto simp: series_pass_def split: prod.splits sum.splits)

lemma online_passes:
  "\<not> isl (snd (series_episodes online_env mag_pattern ''<rss></rss>''))"
  "\<not> isl (snd (series_episodes online_env protocol_pattern ''<rss></rss>''))"
  by code_simp+

text \<open>
  C5. The feed URL is \<open>argv[1]\<close>. With no argument, \<open>main\<close> writes the usage hint to
  standard error and returns 1. When the transfer of the feed fails, it writes
  \<open>curl_easy_perform() failed:\<close> and libcurl's message to standard error and
  returns 1. When the transfer succeeds and both passes, first \<open>MAG\<close> and then
  \<open>The Magnus Protocol\<close>, run to their end, it returns 0.
\<close>

theorem main_exit_codes:
  "main env [prog] st = (Exit 1, st\<lparr>trace := trace st @ [Cerr ''Add your patreon URL'']\<rparr>) \<and>
   (create_directories env ''Downloads'' (world st) = (True, w2) \<and>
    curl_easy_init env w2 = (True, w3) \<and>
    curl_easy_perform env (c_str arg) w3 = ((res, blocks), w4) \<and> res \<noteq> CURLE_OK \<longrightarrow>
      main env (prog # arg # others) st =
        (Exit 1, st\<lparr>world := w4,
                    trace := trace st @
                      [Cout (c_str arg), Mkdir ''Downloads'', Http_get (c_str arg),
                       Cerr (''curl_easy_perform() failed: '' @ curl_easy_strerror env res)]\<rparr>)) \<and>
   (create_directories env ''Downloads'' (world st) = (True, w2) \<and>
    curl_easy_init env w2 = (True, w3) \<and>
    curl_easy_perform env (c_str arg) w3 = ((CURLE_OK, blocks), w4) \<and>
    series_pass env mag_pattern (concat blocks)
      (st\<lparr>world := w4,
          trace := trace st @ [Cout (c_str arg), Mkdir ''Downloads'', Http_get (c_str arg)]\<rparr>)
      = Inr st5 \<and>
    series_pass env protocol_pattern (concat blocks) st5 = Inr st6 \<longrightarrow>
      main env (prog # arg # others) st = (Exit 0, st6))"
  by (auto simp: main_def emit_def response_concat Let_def)

theorem main_exit_codes_witness:
  "fst (main online_env [''magnus''] start) = Exit 1 \<and>
   trace (snd (main online_env [''magnus''] start)) = [Cerr ''Add your patreon URL''] \<and>
   main offline_env [''magnus'', ''http://feed''] start =
     (Exit 1, \<lparr>world = 3,
               trace = [Cout ''http://feed'', Mkdir ''Downloads'', Http_get ''http://feed'',
                        Cerr ''curl_easy_perform() failed: Could not resolve hostname'']\<rparr>) \<and>
   fst (main online_env [''magnus'', ''http://feed''] start) = Exit 0"
proof -
  let ?st4 = "start\<lparr>world := 3,
      trace := trace start @ [Cout ''http://feed'', Mkdir ''Downloads'', Http_get ''http://feed'']\<rparr>"
  obtain st5 where 5: "series_pass online_env mag_pattern (concat [''<rss>'', ''</rss>'']) ?st4 = Inr st5"
    using online_passes(1) series_pass_isl[of online_env mag_pattern "''<rss></rss>''" ?st4]
    by (cases "series_pass online_env mag_pattern (concat [''<rss>'', ''</rss>'']) ?st4") auto
  obtain st6 where 6: "series_pass online_env protocol_pattern (concat [''<rss>'', ''</rss>'']) st5 = Inr st6"
    using online_passes(2) series_pass_isl[of online_env protocol_pattern "''<rss></rss>''" st5]
    by (cases "series_pass online_env protocol_pattern (concat [''<rss>'', ''</rss>'']) st5") auto
  have a: "main online_env [''magnus''] start =
      (Exit 1, start\<lparr>trace := trace start @ [Cerr ''Add your patreon URL'']\<rparr>)"
    using main_exit_codes[of online_env "''magnus''" start] by blast
  have b: "main offline_env [''magnus'', ''http://feed''] start =
      (Exit 1, start\<lparr>world := 3,
                    trace := trace start @
                      [Cout ''http://feed'', Mkdir ''Downloads'', Http_get ''http://feed'',
                       Cerr (''curl_easy_perform() failed: '' @ curl_easy_strerror offline_env 6)]\<rparr>)"
    using main_exit_codes[of offline_env "''magnus''" start 1 2 "''http://feed''" 6 "[]" 3 "[]"]
    by (simp add: offline_env_def scripted_env_def start_def CURLE_OK_def c_str_def code_def)
  have c: "main online_env [''magnus'', ''http://feed''] start = (Exit 0, st6)"
    using main_exit_codes[of online_env "''magnus''" start 1 2 "''http://feed''" 0
        "[''<rss>'', ''</rss>'']" 3 "[]" st5 st6] 5 6
    by (simp add: online_env_def scripted_env_def start_def CURLE_OK_def c_str_def code_def)
  from a b c show ?thesis
    by (simp add: start_def offline_env_def scripted_env_def)
qed

section \<open>Sequencing again\<close>

lemma contract_set: "sort_contract srt \<Longrightarrow> set (sequencer srt eps) = set eps"
  using contract_mset[of srt eps] by (metis mset_eq_setD)

lemma sorted_keys_unique:
  assumes "sort_contract srt" and "sorted (map episodeNumber eps)"
  shows "map episodeNumber (sequencer srt eps) = map episodeNumber eps"
proof -
  have m: "mset (map episodeNumber (sequencer srt eps)) = mset (map episodeNumber eps)"
    using contract_mset[OF assms(1), of eps] by simp
  have s: "sorted (map episodeNumber (sequencer srt eps))"
    using assms(1) by (rule contract_sorted_keys)
  have "sort (map episodeNumber eps) = map episodeNumber (sequencer srt eps)"
    using m s by (rule properties_for_sort)
  moreover have "sort (map episodeNumber eps) = map episodeNumber eps"
    using assms(2) by (rule sorted_sort_id)
  ultimately show ?thesis by simp
qed

lemma sorted_distinct_keys_fixed:
  assumes "sort_contract srt" and "sorted (map episodeNumber eps)"
    and "inj_on episodeNumber (set eps)"
  shows "sequencer srt eps = eps"
proof -
  have "map episodeNumber (sequencer srt eps) = map episodeNumber eps"
    using assms(1,2) by (rule sorted_keys_unique)
  moreover have "inj_on episodeNumber (set (sequencer srt eps) \<union> set eps)"
    using assms(3) contract_set[OF assms(1), of eps] by simp
  ultimately show ?thesis
    by (simp add: inj_on_map_eq_map)
qed

text \<open>
  Up to sixteen records the library sorts by insertion alone, and two records of equal
  number stay as they are.
\<close>

lemma two_ties_in_place:
  "sequencer gnu_sort
     [\<lparr>name = ''MAG 5'', link = ''a'', episodeNumber = 5\<rparr>,
      \<lparr>name = ''mag 5 bonus'', link = ''b'', episodeNumber = 5\<rparr>]
   = [\<lparr>name = ''MAG 5'', link = ''a'', episodeNumber = 5\<rparr>,
      \<lparr>name = ''mag 5 bonus'', link = ''b'', episodeNumber = 5\<rparr>]"
  by code_simp

text \<open>
  C8, as stated, fails where records share an episode number. \<open>seventeen_parts\<close> is
  a list of seventeen records, all numbered 5, so it is sorted already. The
  \<open>std::sort\<close> of the GNU C++ library takes the introsort path for more than sixteen
  elements: the median step exchanges the first record with the ninth, and the
  partition then exchanges the records pairwise from both ends, since none is ordered
  before the pivot. The list that comes back is not the list that went in, and
  sequencing it once more changes it again.
\<close>

theorem resequencing_ties_counterexample:
  "length seventeen_parts = 17 \<and>
   sorted (map episodeNumber seventeen_parts) \<and>
   map name (sequencer gnu_sort seventeen_parts) =
     [''MAG 5 part 9'', ''MAG 5 part 17'', ''MAG 5 part 16'', ''MAG 5 part 15'',
      ''MAG 5 part 14'', ''MAG 5 part 13'', ''MAG 5 part 12'', ''MAG 5 part 11'',
      ''MAG 5 part 10'', ''MAG 5 part 1'', ''MAG 5 part 8'', ''MAG 5 part 7'',
      ''MAG 5 part 6'', ''MAG 5 part 5'', ''MAG 5 part 4'', ''MAG 5 part 3'',
      ''MAG 5 part 2''] \<and>
   sequencer gnu_sort seventeen_parts \<noteq> seventeen_parts \<and>
   sequencer gnu_sort (sequencer gnu_sort seventeen_parts)
     \<noteq> sequencer gnu_sort seventeen_parts"
  by code_simp

text \<open>
  C8, amended. Given a \<open>std::sort\<close> that keeps the standard's contract: sequencing
  twice gives the same episode numbers, position by position, as sequencing once, and
  sequencing a list already sorted by episode number leaves the episode numbers where
  they were. When no two different records of the list share an episode number, the
  records themselves stay: sequencing twice gives the same list as once, and a sorted
  list is returned unchanged.
\<close>

theorem resequencing:
  assumes "sort_contract srt"
  shows "map episodeNumber (sequencer srt (sequencer srt episodes))
           = map episodeNumber (sequencer srt episodes) \<and>
         (sorted (map episodeNumber episodes) \<longrightarrow>
            map episodeNumber (sequencer srt episodes) = map episodeNumber episodes) \<and>
         (inj_on episodeNumber (set episodes) \<longrightarrow>
            sequencer srt (sequencer srt episodes) = sequencer srt episodes) \<and>
         (inj_on episodeNumber (set episodes) \<and> sorted (map episodeNumber episodes) \<longrightarrow>
            sequencer srt episodes = episodes)"
proof -
  have s: "sorted (map episodeNumber (sequencer srt episodes))"
    using assms by (rule contract_sorted_keys)
  have 1: "map episodeNumber (sequencer srt (sequencer srt episodes))
           = map episodeNumber (sequencer srt episodes)"
    using assms s by (rule sorted_keys_unique)
  have 2: "map episodeNumber (sequencer srt episodes) = map episodeNumber episodes"
    if "sorted (map episodeNumber episodes)"
    using assms that by (rule sorted_keys_unique)
  have 3: "sequencer srt (sequencer srt episodes) = sequencer srt episodes"
    if "inj_on episodeNumber (set episodes)"
  proof -
    have "inj_on episodeNumber (set (sequencer srt episodes))"
      using that contract_set[OF assms, of episodes] by simp
    with assms s show ?thesis by (rule sorted_distinct_keys_fixed)
  qed
  have 4: "sequencer srt episodes = episodes"
    if "inj_on episodeNumber (set episodes)" and "sorted (map episodeNumber episodes)"
    using assms that(2,1) by (rule sorted_distinct_keys_fixed)
  from 1 2 3 4 show ?thesis by blast
qed

theorem resequencing_witness:
  "sequencer stable_sort (sequencer stable_sort
     [\<lparr>name = ''MAG 12'', link = ''b'', episodeNumber = 12\<rparr>,
      \<lparr>name = ''MAG 7'', link = ''c'', episodeNumber = 7\<rparr>])
   = sequencer stable_sort
     [\<lparr>name = ''MAG 12'', link = ''b'', episodeNumber = 12\<rparr>,
      \<lparr>name = ''MAG 7'', link = ''c'', episodeNumber = 7\<rparr>] \<and>
   sequencer stable_sort
     [\<lparr>name = ''MAG 7'', link = ''c'', episodeNumber = 7\<rparr>,
      \<lparr>name = ''MAG 12'', link = ''b'', episodeNumber = 12\<rparr>]
   = [\<lparr>name = ''MAG 7'', link = ''c'', episodeNumber = 7\<rparr>,
      \<lparr>name = ''MAG 12'', link = ''b'', episodeNumber = 12\<rparr>] \<and>
   map episodeNumber (sequencer stable_sort
     [\<lparr>name = ''MAG 5'', link = ''a'', episodeNumber = 5\<rparr>,
      \<lparr>name = ''mag 5 bonus'', link = ''b'', episodeNumber = 5\<rparr>]) = [5, 5]"
proof -
  let ?u = "[\<lparr>name = ''MAG 12'', link = ''b'', episodeNumber = 12\<rparr>,
      \<lparr>name = ''MAG 7'', link = ''c'', episodeNumber = 7\<rparr>]"
  let ?s = "[\<lparr>name = ''MAG 7'', link = ''c'', episodeNumber = 7\<rparr>,
      \<lparr>name = ''MAG 12'', link = ''b'', episodeNumber = 12\<rparr>]"
  let ?t = "[\<lparr>name = ''MAG 5'', link = ''a'', episodeNumber = 5\<rparr>,
      \<lparr>name = ''mag 5 bonus'', link = ''b'', episodeNumber = 5\<rparr>]"
  have iu: "inj_on episodeNumber (set ?u)" and isrt: "inj_on episodeNumber (set ?s)"
    by simp_all
  have ss: "sorted (map episodeNumber ?s)" and st: "sorted (map episodeNumber ?t)"
    by simp_all
  from resequencing[OF stable_sort_contract, of ?u] iu
  have 1: "sequencer stable_sort (sequencer stable_sort ?u) = sequencer stable_sort ?u"
    by blast
  from resequencing[OF stable_sort_contract, of ?s] isrt ss
  have 2: "sequencer stable_sort ?s = ?s"
    by blast
  from resequencing[OF stable_sort_contract, of ?t] st
  have 3: "map episodeNumber (sequencer stable_sort ?t) = [5, 5]"
    by simp
  from 1 2 3 show ?thesis by blast
qed

section \<open>The records the parser returns\<close>

lemma parse_items_records:
  assumes "\<forall>item \<in> set items. \<forall>m. regex_search (item_name item) pat = Some m \<longrightarrow>
             (\<exists>n\<ge>0. stoi (sub_match m 1) = Inr n)"
  shows "\<exists>added. parse_items pat items episodes = Inr (episodes @ added) \<and>
           map name added = map item_name (filter (\<lambda>item. regex_search (item_name item) pat \<noteq> None) items) \<and>
           map link added = map item_link (filter (\<lambda>item. regex_search (item_name item) pat \<noteq> None) items) \<and>
           (\<forall>e \<in> set added. 0 \<le> episodeNumber e \<and>
              (\<exists>m. regex_search (name e) pat = Some m \<and> stoi (sub_match m 1) = Inr (episodeNumber e)))"
  using assms
proof (induction items arbitrary: episodes)
  case Nil
  then show ?case by simp
next
  case (Cons item items)
  let ?match = "\<lambda>item. regex_search (item_name item) pat \<noteq> None"
  have rest: "\<forall>item \<in> set items. \<forall>m. regex_search (item_name item) pat = Some m \<longrightarrow>
             (\<exists>n\<ge>0. stoi (sub_match m 1) = Inr n)"
    using Cons.prems by simp
  show ?case
  proof (cases "regex_search (item_name item) pat")
    case None
    then have step: "parse_item pat item episodes = Inr episodes"
      by (simp add: parse_item_def)
    from Cons.IH[OF rest, of episodes] obtain added where
      "parse_items pat items episodes = Inr (episodes @ added)"
      "map name added = map item_name (filter ?match items)"
      "map link added = map item_link (filter ?match items)"
      "\<forall>e \<in> set added. 0 \<le> episodeNumber e \<and>
              (\<exists>m. regex_search (name e) pat = Some m \<and> stoi (sub_match m 1) = Inr (episodeNumber e))"
      by blast
    with None step show ?thesis by simp
  next
    case (Some m)
    with Cons.prems obtain n where n: "0 \<le> n" "stoi (sub_match m 1) = Inr n"
      by auto
    let ?e = "\<lparr>name = item_name item, link = item_link item, episodeNumber = n\<rparr>"
    have step: "parse_item pat item episodes = Inr (episodes @ [?e])"
      using Some n by (simp add: parse_item_def)
    from Cons.IH[OF rest, of "episodes @ [?e]"] obtain added where a:
      "parse_items pat items (episodes @ [?e]) = Inr ((episodes @ [?e]) @ added)"
      "map name added = map item_name (filter ?match items)"
      "map link added = map item_link (filter ?match items)"
      "\<forall>e \<in> set added. 0 \<le> episodeNumber e \<and>
              (\<exists>m. regex_search (name e) pat = Some m \<and> stoi (sub_match m 1) = Inr (episodeNumber e))"
      by blast
    have "parse_items pat (item # items) episodes = Inr (episodes @ (?e # added))"
      using step a(1) by simp
    moreover have "map name (?e # added) = map item_name (filter ?match (item # items))"
      using Some a(2) by simp
    moreover have "map link (?e # added) = map item_link (filter ?match (item # items))"
      using Some a(3) by simp
    moreover have "\<forall>e \<in> set (?e # added). 0 \<le> episodeNumber e \<and>
              (\<exists>m. regex_search (name e) pat = Some m \<and> stoi (sub_match m 1) = Inr (episodeNumber e))"
      using Some n a(4) by simp
    ultimately show ?thesis by blast
  qed
qed

lemma overflow_title:
  "map_option (\<lambda>m. sub_match m 1) (regex_search ''MAG 2147483648'' mag_pattern) = Some ''2147483648''"
  "stoi ''2147483648'' = Inl Out_of_range"
  by code_simp+

lemma searched_number:
  "map_option (\<lambda>m. stoi (sub_match m 1)) (regex_search t p) = Some r \<Longrightarrow>
     regex_search t p \<noteq> None \<and> (\<forall>m. regex_search t p = Some m \<longrightarrow> stoi (sub_match m 1) = r)"
  by auto

lemma mag_feed_numbers:
  "map_option (\<lambda>m. stoi (sub_match m 1)) (regex_search ''MAG 101'' mag_pattern) = Some (Inr 101)"
  "map_option (\<lambda>m. stoi (sub_match m 1)) (regex_search ''Trailer'' mag_pattern) = None"
  "map_option (\<lambda>m. stoi (sub_match m 1)) (regex_search ''MAG 12'' mag_pattern) = Some (Inr 12)"
  "map_option (\<lambda>m. stoi (sub_match m 1)) (regex_search ''MAG'' mag_pattern) = None"
  "map_option (\<lambda>m. stoi (sub_match m 1)) (regex_search ''MAG 7'' mag_pattern) = Some (Inr 7)"
  by code_simp+

text \<open>
  C1, as stated, fails on a matching title whose number does not fit an \<open>int\<close>. The
  title \<open>MAG 2147483648\<close> matches \<open>MAG (\d+)\<close> with first sub-match \<open>2147483648\<close>;
  \<open>std::stoi\<close> throws \<open>std::out_of_range\<close> on it, nothing catches the exception, and
  the parser returns no record for the one matching item.
\<close>

theorem overflowing_number_counterexample:
  "map_option (\<lambda>m. sub_match m 1) (regex_search ''MAG 2147483648'' mag_pattern)
     = Some ''2147483648'' \<and>
   parseRssFeed (\<lambda>x. Inr (feed_of [feed_item ''MAG 2147483648'' ''http://cdn/x.mp3'']))
     mag_pattern ''<rss/>'' [] = ([], Inl Out_of_range)"
proof -
  obtain m where m: "regex_search ''MAG 2147483648'' mag_pattern = Some m"
      "sub_match m 1 = ''2147483648''"
    using overflow_title(1) by (cases "regex_search ''MAG 2147483648'' mag_pattern") auto
  then have "parse_item mag_pattern (feed_item ''MAG 2147483648'' ''http://cdn/x.mp3'') [] = Inl Out_of_range"
    using overflow_title(2) by (simp add: parse_item_def item_name_feed_item)
  then show ?thesis
    using overflow_title(1)
    by (simp add: parseRssFeed_def select_items_feed_of node_name_feed_item)
qed

text \<open>
  C1, amended. For a feed text that loads, and a pattern such that the first sub-match
  of every matching title among the items at \<open>rss/channel/item\<close> parses, by
  \<open>std::stoi\<close>, to a number that is not negative: the parser writes nothing to
  standard error and appends to the caller's vector exactly one record per matching
  item, in feed order, with the item's title and link, and with an episode number that
  is at least 0 and is the number parsed from the first sub-match of its title; the
  items whose titles do not match add nothing.
\<close>

theorem parser_records:
  assumes "ld (c_str xmlData) = Inr doc"
    and "\<forall>item \<in> set (select_items doc). \<forall>m. regex_search (item_name item) pat = Some m \<longrightarrow>
             (\<exists>n\<ge>0. stoi (sub_match m 1) = Inr n)"
  shows "\<exists>added. parseRssFeed ld pat xmlData episodes = ([], Inr (episodes @ added)) \<and>
           length added =
             length (filter (\<lambda>item. regex_search (item_name item) pat \<noteq> None) (select_items doc)) \<and>
           map name added =
             map item_name (filter (\<lambda>item. regex_search (item_name item) pat \<noteq> None) (select_items doc)) \<and>
           map link added =
             map item_link (filter (\<lambda>item. regex_search (item_name item) pat \<noteq> None) (select_items doc)) \<and>
           (\<forall>e \<in> set added. 0 \<le> episodeNumber e \<and>
              (\<exists>m. regex_search (name e) pat = Some m \<and> stoi (sub_match m 1) = Inr (episodeNumber e)))"
proof -
  let ?match = "\<lambda>item. regex_search (item_name item) pat \<noteq> None"
  from parse_items_records[OF assms(2), of episodes] obtain added where a:
      "parse_items pat (select_items doc) episodes = Inr (episodes @ added)"
      "map name added = map item_name (filter ?match (select_items doc))"
      "map link added = map item_link (filter ?match (select_items doc))"
      "\<forall>e \<in> set added. 0 \<le> episodeNumber e \<and>
              (\<exists>m. regex_search (name e) pat = Some m \<and> stoi (sub_match m 1) = Inr (episodeNumber e))"
    by blast
  have "length added = length (map name added)" by simp
  also have "\<dots> = length (filter ?match (select_items doc))"
    unfolding a(2) by simp
  finally have l: "length added = length (filter ?match (select_items doc))" .
  have "parseRssFeed ld pat xmlData episodes = ([], Inr (episodes @ added))"
    using assms(1) a(1) by (simp add: parseRssFeed_def)
  with l a(2,3,4) show ?thesis by blast
qed

theorem parser_records_witness:
  "\<exists>added. parseRssFeed (\<lambda>x. Inr mag_feed) mag_pattern ''<rss/>'' [] = ([], Inr added) \<and>
     length added = 3 \<and>
     map name added = [''MAG 101'', ''MAG 12'', ''MAG 7''] \<and>
     map link added = [''http://cdn/101.mp3'', ''http://cdn/12.mp3'', ''http://cdn/7.mp3''] \<and>
     list_all (\<lambda>e. 0 \<le> episodeNumber e) added"
proof -
  note s = searched_number[OF mag_feed_numbers(1)] searched_number[OF mag_feed_numbers(3)]
    searched_number[OF mag_feed_numbers(5)]
  have n: "regex_search ''Trailer'' mag_pattern = None" "regex_search ''MAG'' mag_pattern = None"
    using mag_feed_numbers(2,4) by simp_all
  have items: "select_items mag_feed =
      [feed_item ''MAG 101'' ''http://cdn/101.mp3'', feed_item ''Trailer'' ''http://cdn/t.mp3'',
       feed_item ''MAG 12'' ''http://cdn/12.mp3'', feed_item ''MAG'' ''http://cdn/0.mp3'',
       feed_item ''MAG 7'' ''http://cdn/7.mp3'']"
    by (simp add: mag_feed_def select_items_feed_of node_name_feed_item)
  have h: "\<forall>item \<in> set (select_items mag_feed). \<forall>m.
      regex_search (item_name item) mag_pattern = Some m \<longrightarrow> (\<exists>n\<ge>0. stoi (sub_match m 1) = Inr n)"
    using s n by (simp add: items item_name_feed_item)
  from parser_records[of "\<lambda>x. Inr mag_feed" "''<rss/>''" mag_feed mag_pattern "[]", OF refl h]
  obtain added where a:
    "parseRssFeed (\<lambda>x. Inr mag_feed) mag_pattern ''<rss/>'' [] = ([], Inr ([] @ added))"
    "length added = length (filter (\<lambda>item. regex_search (item_name item) mag_pattern \<noteq> None) (select_items mag_feed))"
    "map name added = map item_name (filter (\<lambda>item. regex_search (item_name item) mag_pattern \<noteq> None) (select_items mag_feed))"
    "map link added = map item_link (filter (\<lambda>item. regex_search (item_name item) mag_pattern \<noteq> None) (select_items mag_feed))"
    "\<forall>e \<in> set added. 0 \<le> episodeNumber e \<and>
       (\<exists>m. regex_search (name e) mag_pattern = Some m \<and> stoi (sub_match m 1) = Inr (episodeNumber e))"
    by blast
  have f: "filter (\<lambda>item. regex_search (item_name item) mag_pattern \<noteq> None) (select_items mag_feed) =
      [feed_item ''MAG 101'' ''http://cdn/101.mp3'', feed_item ''MAG 12'' ''http://cdn/12.mp3'',
       feed_item ''MAG 7'' ''http://cdn/7.mp3'']"
    using s n by (simp add: items item_name_feed_item)
  from a(5) have "list_all (\<lambda>e. 0 \<le> episodeNumber e) added"
    by (simp add: list_all_iff)
  with a(1) a(2-4)[unfolded f] show ?thesis
    by (simp add: item_name_feed_item item_link_feed_item)
qed

section \<open>Numbers made of digits\<close>

lemma digit_val_nonneg: "is_digit c \<Longrightarrow> 0 \<le> digit_val c"
  by (simp add: is_digit_def digit_val_def)

lemma foldl_digits_nonneg:
  "list_all is_digit ds \<Longrightarrow> 0 \<le> acc \<Longrightarrow> 0 \<le> foldl (\<lambda>acc c. 10 * acc + digit_val c) acc ds"
proof (induction ds arbitrary: acc)
  case Nil
  then show ?case by simp
next
  case (Cons d ds)
  then have "0 \<le> 10 * acc + digit_val d"
    using digit_val_nonneg[of d] by simp
  with Cons show ?case by simp
qed

lemma digits_val_nonneg: "list_all is_digit ds \<Longrightarrow> 0 \<le> digits_val ds"
  unfolding digits_val_def by (rule foldl_digits_nonneg) simp_all

lemma code_literals:
  "code CHR ''-'' = 45" "code CHR ''+'' = 43"
  by (simp_all add: code_def)

lemma digit_not_sign:
  assumes "is_digit x"
  shows "x \<noteq> CHR ''-''" and "x \<noteq> CHR ''+''" and "\<not> is_space x"
  using assms code_literals by (auto simp: is_digit_def is_space_def)

lemma stoi_digits:
  assumes "list_all is_digit (d # ds)" and "digits_val (d # ds) \<le> INT_MAX"
  shows "stoi (d # ds) = Inr (digits_val (d # ds))"
proof -
  have d: "is_digit d" using assms(1) by simp
  have tw: "takeWhile is_digit ds = ds"
    using assms(1) by (simp add: list_all_iff)
  have nn: "0 \<le> digits_val (d # ds)"
    using assms(1) by (rule digits_val_nonneg)
  show ?thesis
    using d digit_not_sign[OF d] nn assms(2)
    by (simp add: stoi_def Let_def INT_MIN_def tw)
qed

section \<open>What the two patterns find\<close>

lemma rmatch_Cat_Chr_Cons:
  "rmatch ic (Cat (Chr c) r) (x # xs) cs = (if chr_eq ic c x then rmatch ic r xs cs else [])"
  by simp

lemma rmatch_lits:
  "rmatch True (lits p r) s cs =
     (if ci_equal (take (length p) s) p then rmatch True r (drop (length p) s) cs else [])"
proof (induction p arbitrary: s)
  case Nil
  then show ?case by (simp add: ci_equal_def)
next
  case (Cons c p)
  show ?case
  proof (cases s)
    case Nil
    then show ?thesis by (simp add: ci_equal_def rmatch_Nil del: rmatch.simps)
  next
    case (Cons x xs)
    with Cons.IH[of xs] show ?thesis
      by (auto simp: rmatch_Cat_Chr_Cons ci_equal_def chr_eq_def simp del: rmatch.simps)
  qed
qed

lemma rmatch_Plus_Digit_Nil: "rmatch ic (Plus Digit) [] cs = []"
  by (subst rmatch.simps(4)) simp

lemma rmatch_Plus_Digit_Cons:
  "rmatch ic (Plus Digit) (x # xs) cs =
     (if is_digit x then rmatch ic (Plus Digit) xs cs @ [(xs, cs)] else [])"
  by (subst rmatch.simps(4)) simp

lemma rmatch_digits_greedy:
  "is_digit d \<Longrightarrow> \<exists>rest. rmatch ic (Plus Digit) (d # ds) cs = (dropWhile is_digit ds, cs) # rest"
proof (induction ds arbitrary: d)
  case Nil
  then show ?case by (simp add: rmatch_Plus_Digit_Cons rmatch_Plus_Digit_Nil)
next
  case (Cons e es)
  show ?case
  proof (cases "is_digit e")
    case True
    from Cons.IH[OF True] obtain rest where
      "rmatch ic (Plus Digit) (e # es) cs = (dropWhile is_digit es, cs) # rest"
      by blast
    with Cons.prems True show ?thesis
      by (simp add: rmatch_Plus_Digit_Cons[of ic d])
  next
    case False
    with Cons.prems show ?thesis
      by (simp add: rmatch_Plus_Digit_Cons)
  qed
qed

lemma take_digits: "take (Suc (length ds) - length (dropWhile is_digit ds)) (d # ds)
    = d # takeWhile is_digit ds"
proof -
  have "length ds = length (takeWhile is_digit ds) + length (dropWhile is_digit ds)"
    by (metis length_append takeWhile_dropWhile_id)
  then have "Suc (length ds) - length (dropWhile is_digit ds) = Suc (length (takeWhile is_digit ds))"
    by simp
  then show ?thesis
    by (simp add: takeWhile_eq_take[symmetric])
qed

lemma rmatch_number:
  "rmatch ic (Group n (Plus Digit)) s cs =
     (case s of [] \<Rightarrow> []
      | d # ds \<Rightarrow> if is_digit d
                 then (dropWhile is_digit ds, cs(n \<mapsto> d # takeWhile is_digit ds))
                        # tl (rmatch ic (Group n (Plus Digit)) s cs)
                 else [])"
proof (cases s)
  case Nil
  then show ?thesis by (simp add: rmatch_Plus_Digit_Nil)
next
  case (Cons d ds)
  show ?thesis
  proof (cases "is_digit d")
    case True
    from rmatch_digits_greedy[OF True, of ic ds cs] obtain rest where
      "rmatch ic (Plus Digit) (d # ds) cs = (dropWhile is_digit ds, cs) # rest"
      by blast
    with Cons True show ?thesis
      by (simp add: take_digits)
  next
    case False
    with Cons show ?thesis by (simp add: rmatch_Plus_Digit_Cons)
  qed
qed

lemma search_marker:
  "search_from True (lits p (Group n (Plus Digit))) s =
     (if has_marker p s then Some [n \<mapsto> marker_number p s] else None)"
proof (induction s)
  case Nil
  then show ?case by (simp add: rmatch_Nil del: rmatch.simps)
next
  case (Cons x xs)
  show ?case
  proof (cases "marker_at p (x # xs)")
    case True
    then obtain d ds where dd: "drop (length p) (x # xs) = d # ds" and d: "is_digit d"
      and eq: "ci_equal (take (length p) (x # xs)) p"
      by (auto simp: marker_at_def split: list.splits)
    have "\<exists>rest. rmatch True (Group n (Plus Digit)) (d # ds) Map.empty =
        (dropWhile is_digit ds, [n \<mapsto> d # takeWhile is_digit ds]) # rest"
      using d by (subst rmatch_number) simp
    then obtain rest where "rmatch True (lits p (Group n (Plus Digit))) (x # xs) Map.empty =
        (dropWhile is_digit ds, [n \<mapsto> d # takeWhile is_digit ds]) # rest"
      using eq dd by (auto simp: rmatch_lits simp del: rmatch.simps)
    with True dd d show ?thesis
      by (simp del: rmatch.simps)
  next
    case False
    have "rmatch True (lits p (Group n (Plus Digit))) (x # xs) Map.empty = []"
    proof (cases "ci_equal (take (length p) (x # xs)) p")
      case eq: True
      with False have "case drop (length p) (x # xs) of [] \<Rightarrow> True | d # _ \<Rightarrow> \<not> is_digit d"
        by (auto simp: marker_at_def split: list.splits)
      then have "rmatch True (Group n (Plus Digit)) (drop (length p) (x # xs)) Map.empty = []"
        by (subst rmatch_number) (auto split: list.splits)
      with eq show ?thesis by (simp add: rmatch_lits del: rmatch.simps)
    next
      case False
      then show ?thesis by (simp add: rmatch_lits del: rmatch.simps)
    qed
    then have "search_from True (lits p (Group n (Plus Digit))) (x # xs)
        = search_from True (lits p (Group n (Plus Digit))) xs"
      by (simp del: rmatch.simps)
    also have "\<dots> = (if has_marker p xs then Some [n \<mapsto> marker_number p xs] else None)"
      by (rule Cons.IH)
    also have "\<dots> = (if has_marker p (x # xs) then Some [n \<mapsto> marker_number p (x # xs)] else None)"
      using False by simp
    finally show ?thesis .
  qed
qed

lemma marker_number_digits:
  "has_marker p s \<Longrightarrow> marker_number p s \<noteq> [] \<and> list_all is_digit (marker_number p s)"
proof (induction s)
  case Nil
  then show ?case by simp
next
  case (Cons x xs)
  show ?case
  proof (cases "marker_at p (x # xs)")
    case True
    then obtain d ds where "drop (length p) (x # xs) = d # ds" "is_digit d"
      by (auto simp: marker_at_def split: list.splits)
    with True show ?thesis
      by (simp add: list_all_iff) (meson set_takeWhileD)
  next
    case False
    with Cons show ?thesis by simp
  qed
qed

lemma series_search:
  "regex_search t mag_pattern =
     (if has_marker ''MAG '' t then Some [1 \<mapsto> marker_number ''MAG '' t] else None)"
  "regex_search t protocol_pattern =
     (if has_marker ''The Magnus Protocol '' t
      then Some [1 \<mapsto> marker_number ''The Magnus Protocol '' t] else None)"
  unfolding regex_search_def mag_pattern_def protocol_pattern_def pattern.simps
  by (rule search_marker)+

section \<open>The two series\<close>

lemma series_episodes_of_titles:
  assumes ld: "load_string env (c_str xmlData) = Inr doc"
    and srt: "sort_contract (std_sort env)"
    and hit: "\<And>item. item \<in> set (select_items doc) \<Longrightarrow> P (item_name item) \<Longrightarrow>
        regex_search (item_name item) pat = Some [1 \<mapsto> num (item_name item)] \<and>
        stoi (num (item_name item)) = Inr (digits_val (num (item_name item))) \<and>
        0 \<le> digits_val (num (item_name item))"
    and miss: "\<And>item. item \<in> set (select_items doc) \<Longrightarrow> \<not> P (item_name item) \<Longrightarrow>
        regex_search (item_name item) pat = None"
  shows "\<exists>eps. series_episodes env pat xmlData = ([], Inr eps) \<and>
           sorted (map episodeNumber eps) \<and>
           (\<forall>e \<in> set eps. name e \<in> item_name ` set (select_items doc) \<and> P (name e) \<and>
              episodeNumber e = digits_val (num (name e))) \<and>
           mset (map name eps) = mset (filter P (map item_name (select_items doc)))"
proof -
  let ?items = "select_items doc"
  let ?match = "\<lambda>item. regex_search (item_name item) pat \<noteq> None"
  have h: "\<forall>item \<in> set ?items. \<forall>m. regex_search (item_name item) pat = Some m \<longrightarrow>
             (\<exists>n\<ge>0. stoi (sub_match m 1) = Inr n)"
  proof (intro ballI allI impI)
    fix item m
    assume i: "item \<in> set ?items" and m: "regex_search (item_name item) pat = Some m"
    then have "P (item_name item)" using miss by fastforce
    from hit[OF i this] m show "\<exists>n\<ge>0. stoi (sub_match m 1) = Inr n"
      by (auto simp: sub_match_def)
  qed
  from parse_items_records[OF h, of "[]"] obtain added where a:
      "parse_items pat ?items [] = Inr added"
      "map name added = map item_name (filter ?match ?items)"
      "\<forall>e \<in> set added. 0 \<le> episodeNumber e \<and>
         (\<exists>m. regex_search (name e) pat = Some m \<and> stoi (sub_match m 1) = Inr (episodeNumber e))"
    by auto
  have f: "filter ?match ?items = filter (\<lambda>item. P (item_name item)) ?items"
  proof (rule filter_cong[OF refl])
    fix item assume i: "item \<in> set ?items"
    show "?match item = P (item_name item)"
      using hit[OF i] miss[OF i] by (cases "P (item_name item)") auto
  qed
  have names: "map name added = filter P (map item_name ?items)"
    unfolding a(2) f by (simp add: filter_map comp_def)
  have each: "name e \<in> item_name ` set ?items \<and> P (name e) \<and>
      episodeNumber e = digits_val (num (name e))"
    if e: "e \<in> set added" for e
  proof -
    from e have "name e \<in> set (map name added)" by simp
    then obtain item where i: "item \<in> set ?items" "P (item_name item)" "name e = item_name item"
      unfolding a(2) f by auto
    from hit[OF i(1,2)] a(3) e i(3)
    have "stoi (sub_match [1 \<mapsto> num (name e)] 1) = Inr (episodeNumber e)"
         "stoi (num (name e)) = Inr (digits_val (num (name e)))"
      by auto
    then have "episodeNumber e = digits_val (num (name e))"
      by (simp add: sub_match_def)
    with i show ?thesis by simp
  qed
  let ?eps = "sequencer (std_sort env) added"
  have "series_episodes env pat xmlData = ([], Inr ?eps)"
    using ld a(1) by (simp add: series_episodes_def parseRssFeed_def)
  moreover have "sorted (map episodeNumber ?eps)"
    using srt by (rule contract_sorted_keys)
  moreover have "\<forall>e \<in> set ?eps. name e \<in> item_name ` set ?items \<and> P (name e) \<and>
      episodeNumber e = digits_val (num (name e))"
    using each contract_set[OF srt, of added] by simp
  moreover have "mset (map name ?eps) = mset (filter P (map item_name ?items))"
    using contract_mset[OF srt, of added] names by (metis mset_map)
  ultimately show ?thesis by blast
qed

lemma marker_number_stoi:
  assumes "has_marker p t" and "digits_val (marker_number p t) \<le> INT_MAX"
  shows "stoi (marker_number p t) = Inr (digits_val (marker_number p t)) \<and>
         0 \<le> digits_val (marker_number p t)"
proof -
  from marker_number_digits[OF assms(1)] obtain d ds where
    n: "marker_number p t = d # ds" and g: "list_all is_digit (marker_number p t)"
    by (cases "marker_number p t") auto
  from stoi_digits[of d ds] digits_val_nonneg[OF g] g assms(2) show ?thesis
    unfolding n by simp
qed

lemma to_lower_literals:
  "to_lower CHR ''M'' = CHR ''m''" "to_lower CHR ''A'' = CHR ''a''" "to_lower CHR ''G'' = CHR ''g''"
  "to_lower CHR '' '' = CHR '' ''" "to_lower CHR ''T'' = CHR ''t''" "to_lower CHR ''h'' = CHR ''h''"
  "to_lower CHR ''e'' = CHR ''e''" "to_lower CHR ''a'' = CHR ''a''" "to_lower CHR ''g'' = CHR ''g''"
  "to_lower CHR ''n'' = CHR ''n''" "to_lower CHR ''u'' = CHR ''u''" "to_lower CHR ''s'' = CHR ''s''"
  "to_lower CHR ''P'' = CHR ''p''" "to_lower CHR ''r'' = CHR ''r''" "to_lower CHR ''o'' = CHR ''o''"
  "to_lower CHR ''t'' = CHR ''t''" "to_lower CHR ''c'' = CHR ''c''" "to_lower CHR ''l'' = CHR ''l''"
  "to_lower CHR ''1'' = CHR ''1''" "to_lower CHR ''3'' = CHR ''3''"
  by code_simp+

lemma scenario_titles:
  "has_marker ''MAG '' ''MAG 3''"
  "has_marker ''The Magnus Protocol '' ''The Magnus Protocol 1''"
  "\<not> has_marker ''MAG '' ''The Magnus Protocol 1''"
  "\<not> has_marker ''The Magnus Protocol '' ''MAG 3''"
  "digits_val (marker_number ''MAG '' ''MAG 3'') = 3"
  "digits_val (marker_number ''The Magnus Protocol '' ''The Magnus Protocol 1'') = 1"
  "digits_val (marker_number ''MAG '' ''The Magnus Protocol 1'') = 0"
  "digits_val (marker_number ''The Magnus Protocol '' ''MAG 3'') = 0"
  by (simp_all add: marker_at_def ci_equal_def to_lower_literals is_digit_def code_def
      digits_val_def digit_val_def)

lemma mset_single_list: "mset xs = mset [x] \<Longrightarrow> xs = [x]"
  by (cases xs) auto

section \<open>Items with missing children\<close>

lemma parse_items_includes:
  assumes "\<forall>item \<in> set items. \<forall>m. regex_search (item_name item) pat = Some m \<longrightarrow>
             (\<exists>n\<ge>0. stoi (sub_match m 1) = Inr n)"
    and "item \<in> set items" and "regex_search (item_name item) pat = Some m"
  shows "\<exists>added n. parse_items pat items episodes = Inr (episodes @ added) \<and>
           stoi (sub_match m 1) = Inr n \<and>
           \<lparr>name = item_name item, link = item_link item, episodeNumber = n\<rparr> \<in> set added"
  using assms
proof (induction items arbitrary: episodes)
  case Nil
  then show ?case by simp
next
  case (Cons x xs)
  have rest: "\<forall>item \<in> set xs. \<forall>m. regex_search (item_name item) pat = Some m \<longrightarrow>
             (\<exists>n\<ge>0. stoi (sub_match m 1) = Inr n)"
    using Cons.prems(1) by simp
  have step: "\<exists>mine. parse_item pat x episodes = Inr (episodes @ mine) \<and>
      (x = item \<longrightarrow> (\<exists>n. stoi (sub_match m 1) = Inr n \<and>
         mine = [\<lparr>name = item_name item, link = item_link item, episodeNumber = n\<rparr>]))"
  proof (cases "regex_search (item_name x) pat")
    case None
    with Cons.prems(3) show ?thesis by (auto simp: parse_item_def)
  next
    case (Some mx)
    with Cons.prems(1) obtain n where n: "0 \<le> n" "stoi (sub_match mx 1) = Inr n"
      by auto
    with Some Cons.prems(3) show ?thesis
      by (auto simp: parse_item_def)
  qed
  then obtain mine where mine: "parse_item pat x episodes = Inr (episodes @ mine)"
    "x = item \<longrightarrow> (\<exists>n. stoi (sub_match m 1) = Inr n \<and>
         mine = [\<lparr>name = item_name item, link = item_link item, episodeNumber = n\<rparr>])"
    by blast
  show ?case
  proof (cases "x = item")
    case True
    with mine(2) obtain n where n: "stoi (sub_match m 1) = Inr n"
      "mine = [\<lparr>name = item_name item, link = item_link item, episodeNumber = n\<rparr>]"
      by blast
    from parse_items_records[OF rest, of "episodes @ mine"] obtain more where
      "parse_items pat xs (episodes @ mine) = Inr ((episodes @ mine) @ more)"
      by blast
    with mine(1) n show ?thesis
      by (intro exI[of _ "mine @ more"] exI[of _ n]) simp
  next
    case False
    with Cons.prems(2) have "item \<in> set xs" by simp
    from Cons.IH[OF rest this Cons.prems(3), of "episodes @ mine"] obtain more n where
      "parse_items pat xs (episodes @ mine) = Inr ((episodes @ mine) @ more)"
      "stoi (sub_match m 1) = Inr n"
      "\<lparr>name = item_name item, link = item_link item, episodeNumber = n\<rparr> \<in> set more"
      by blast
    with mine(1) show ?thesis
      by (intro exI[of _ "mine @ more"] exI[of _ n]) simp
  qed
qed

lemma missing_enclosure_link:
  "child (Some item) ''enclosure'' = None \<or>
   (\<exists>e. child (Some item) ''enclosure'' = Some e \<and> map_of (attributes e) ''url'' = None)
   \<Longrightarrow> item_link item = []"
  by (auto simp: item_link_def attribute_value_def)

lemma missing_title_name: "child (Some item) ''title'' = None \<Longrightarrow> item_name item = []"
  by (simp add: item_name_def text_get_def)

lemma overflow_bare:
  "map_option (\<lambda>m. stoi (sub_match m 1)) (regex_search ''MAG 2147483648'' mag_pattern)
     = Some (Inl Out_of_range)"
  by code_simp

text \<open>
  C10, as stated, fails on a matching title whose number does not fit an \<open>int\<close>. The
  item has a title, \<open>MAG 2147483648\<close>, which matches, and no \<open>enclosure\<close> child;
  \<open>std::stoi\<close> throws on the sub-match, so the parser does fail and the item is not in
  any returned list.
\<close>

theorem missing_enclosure_overflow_counterexample:
  "child (Some (Element ''item'' [] [Element ''title'' [] [PCData ''MAG 2147483648'']])) ''enclosure''
     = None \<and>
   map_option (\<lambda>m. sub_match m 1)
     (regex_search (item_name (Element ''item'' [] [Element ''title'' [] [PCData ''MAG 2147483648'']]))
        mag_pattern) = Some ''2147483648'' \<and>
   parseRssFeed
     (\<lambda>x. Inr (feed_of [Element ''item'' [] [Element ''title'' [] [PCData ''MAG 2147483648'']]]))
     mag_pattern ''<rss/>'' [] = ([], Inl Out_of_range)"
proof -
  let ?item = "Element ''item'' [] [Element ''title'' [] [PCData ''MAG 2147483648'']]"
  have n: "item_name ?item = ''MAG 2147483648''"
    by (simp add: item_name_def child_def text_get_def)
  have "parse_item mag_pattern ?item [] = Inl Out_of_range"
    using overflow_bare
    by (cases "regex_search ''MAG 2147483648'' mag_pattern") (auto simp: parse_item_def n)
  then show ?thesis
    using overflow_title(1)
    by (simp add: parseRssFeed_def select_items_feed_of n child_def)
qed

text \<open>
  C10, amended. For a feed text that loads, and a pattern such that the first sub-match
  of every matching title among the items parses, by \<open>std::stoi\<close>, to a number that is
  not negative: the parser returns normally, and every item that has no \<open>enclosure\<close>
  child, or no \<open>url\<close> attribute on it, has the empty string as its link and, when its
  title matches, is in the returned list, as the record of its title, the empty link
  and the number parsed from the title. An item with no \<open>title\<close> child has the empty
  string as its name, and no record of the returned list has an empty name.
\<close>

theorem missing_children:
  assumes "ld (c_str xmlData) = Inr doc"
    and "\<forall>item \<in> set (select_items doc). \<forall>m. regex_search (item_name item) pat = Some m \<longrightarrow>
             (\<exists>n\<ge>0. stoi (sub_match m 1) = Inr n)"
  shows "\<exists>added. parseRssFeed ld pat xmlData episodes = ([], Inr (episodes @ added)) \<and>
           [] \<notin> name ` set added \<and>
           (\<forall>item \<in> set (select_items doc).
              (child (Some item) ''title'' = None \<longrightarrow> item_name item = []) \<and>
              ((child (Some item) ''enclosure'' = None \<or>
                (\<exists>e. child (Some item) ''enclosure'' = Some e \<and>
                     map_of (attributes e) ''url'' = None)) \<longrightarrow>
               item_link item = [] \<and>
               (\<forall>m. regex_search (item_name item) pat = Some m \<longrightarrow>
                  (\<exists>n. stoi (sub_match m 1) = Inr n \<and>
                     \<lparr>name = item_name item, link = [], episodeNumber = n\<rparr> \<in> set added))))"
proof -
  let ?items = "select_items doc"
  from parse_items_records[OF assms(2), of episodes] obtain added where a:
      "parse_items pat ?items episodes = Inr (episodes @ added)"
      "\<forall>e \<in> set added. 0 \<le> episodeNumber e \<and>
         (\<exists>m. regex_search (name e) pat = Some m \<and> stoi (sub_match m 1) = Inr (episodeNumber e))"
    by blast
  have p: "parseRssFeed ld pat xmlData episodes = ([], Inr (episodes @ added))"
    using assms(1) a(1) by (simp add: parseRssFeed_def)
  have e: "[] \<notin> name ` set added"
    using a(2) regex_search_Nil by fastforce
  have i: "\<exists>n. stoi (sub_match m 1) = Inr n \<and>
             \<lparr>name = item_name item, link = [], episodeNumber = n\<rparr> \<in> set added"
    if "item \<in> set ?items" "item_link item = []" "regex_search (item_name item) pat = Some m"
    for item m
  proof -
    from parse_items_includes[OF assms(2) that(1,3), of episodes] obtain added' n where
      "parse_items pat ?items episodes = Inr (episodes @ added')"
      "stoi (sub_match m 1) = Inr n"
      "\<lparr>name = item_name item, link = item_link item, episodeNumber = n\<rparr> \<in> set added'"
      by blast
    with a(1) that(2) show ?thesis by auto
  qed
  show ?thesis
  proof (intro exI[of _ added] conjI ballI impI allI)
    show "parseRssFeed ld pat xmlData episodes = ([], Inr (episodes @ added))" by (rule p)
    show "[] \<notin> name ` set added" by (rule e)
  next
    fix item assume "child (Some item) ''title'' = None"
    then show "item_name item = []" by (rule missing_title_name)
  next
    fix item
    assume "child (Some item) ''enclosure'' = None \<or>
        (\<exists>e. child (Some item) ''enclosure'' = Some e \<and> map_of (attributes e) ''url'' = None)"
    then show "item_link item = []" by (rule missing_enclosure_link)
  next
    fix item m
    assume "item \<in> set ?items"
      and "child (Some item) ''enclosure'' = None \<or>
        (\<exists>e. child (Some item) ''enclosure'' = Some e \<and> map_of (attributes e) ''url'' = None)"
      and "regex_search (item_name item) pat = Some m"
    then show "\<exists>n. stoi (sub_match m 1) = Inr n \<and>
             \<lparr>name = item_name item, link = [], episodeNumber = n\<rparr> \<in> set added"
      using i missing_enclosure_link by blast
  qed
qed

theorem missing_children_witness:
  "\<exists>added. parseRssFeed (\<lambda>x. Inr bare_feed) mag_pattern ''<rss/>'' [] = ([], Inr added) \<and>
     \<lparr>name = ''MAG 12'', link = [], episodeNumber = 12\<rparr> \<in> set added \<and>
     \<lparr>name = ''MAG 7'', link = [], episodeNumber = 7\<rparr> \<in> set added \<and>
     [] \<notin> name ` set added"
proof -
  let ?a = "Element ''item'' [] [Element ''title'' [] [PCData ''MAG 12'']]"
  let ?b = "Element ''item'' [] [Element ''title'' [] [PCData ''MAG 7''],
                                   Element ''enclosure'' [(''length'', ''1'')] []]"
  let ?c = "Element ''item'' [] [Element ''enclosure'' [(''url'', ''http://cdn/x.mp3'')] []]"
  note s12 = searched_number[OF mag_feed_numbers(3)]
  note s7 = searched_number[OF mag_feed_numbers(5)]
  have items: "select_items bare_feed = [?a, ?b, ?c]"
    by (simp add: bare_feed_def select_items_feed_of)
  have names: "item_name ?a = ''MAG 12''" "item_name ?b = ''MAG 7''" "item_name ?c = []"
    by (simp_all add: item_name_def child_def text_get_def)
  have h: "\<forall>item \<in> set (select_items bare_feed). \<forall>m.
      regex_search (item_name item) mag_pattern = Some m \<longrightarrow> (\<exists>n\<ge>0. stoi (sub_match m 1) = Inr n)"
    using s12 s7 by (simp add: items names regex_search_Nil)
  have ea: "child (Some ?a) ''enclosure'' = None"
    by (simp add: child_def)
  have eb: "\<exists>e. child (Some ?b) ''enclosure'' = Some e \<and> map_of (attributes e) ''url'' = None"
    by (simp add: child_def)
  have tc: "child (Some ?c) ''title'' = None"
    by (simp add: child_def)
  obtain m12 where m12: "regex_search ''MAG 12'' mag_pattern = Some m12"
    using s12 by auto
  obtain m7 where m7: "regex_search ''MAG 7'' mag_pattern = Some m7"
    using s7 by auto
  from missing_children[of "\<lambda>x. Inr bare_feed" "''<rss/>''" bare_feed mag_pattern "[]", OF refl h]
  obtain added where r:
    "parseRssFeed (\<lambda>x. Inr bare_feed) mag_pattern ''<rss/>'' [] = ([], Inr ([] @ added))"
    "[] \<notin> name ` set added"
    and each: "\<forall>item \<in> set (select_items bare_feed).
              (child (Some item) ''title'' = None \<longrightarrow> item_name item = []) \<and>
              ((child (Some item) ''enclosure'' = None \<or>
                (\<exists>e. child (Some item) ''enclosure'' = Some e \<and>
                     map_of (attributes e) ''url'' = None)) \<longrightarrow>
               item_link item = [] \<and>
               (\<forall>m. regex_search (item_name item) mag_pattern = Some m \<longrightarrow>
                  (\<exists>n. stoi (sub_match m 1) = Inr n \<and>
                     \<lparr>name = item_name item, link = [], episodeNumber = n\<rparr> \<in> set added)))"
    by (elim exE conjE)
  have "?a \<in> set (select_items bare_feed)" by (simp add: items)
  with each ea names(1) m12 s12
  have a: "\<lparr>name = ''MAG 12'', link = [], episodeNumber = 12\<rparr> \<in> set added"
    by fastforce
  have "?b \<in> set (select_items bare_feed)" by (simp add: items)
  with each eb names(2) m7 s7
  have b: "\<lparr>name = ''MAG 7'', link = [], episodeNumber = 7\<rparr> \<in> set added"
    by fastforce
  from r a b show ?thesis by simp
qed

section \<open>Text that is not well-formed\<close>

lemma nul_cut:
  "c_str (one_item_text @ CHR 0x00 # ''<rss'') = one_item_text"
  by (simp add: c_str_def code_def one_item_text_def)

lemma mag_1_number:
  "map_option (\<lambda>m. stoi (sub_match m 1)) (regex_search ''MAG 1'' mag_pattern) = Some (Inr 1)"
  by code_simp

lemma series_pass_rejected:
  assumes "load_string env (c_str xmlData) = Inl description" and "sort_contract (std_sort env)"
  shows "series_pass env pat xmlData st =
           Inr (st\<lparr>trace := trace st @ [Cerr (''Error parsing XML: '' @ description)]\<rparr>)"
  using assms
  by (simp add: parseRssFeed_def series_pass_def series_episodes_def sequencer_Nil)

text \<open>
  C4, as stated, fails because the parser is given \<open>xmlData.c_str()\<close>, the text up to
  its first zero byte. A well-formed feed followed by a zero byte and an unclosed tag is
  not well-formed, and \<open>strict_loader\<close> rejects it when given the whole of it; but
  \<open>parseRssFeed\<close> hands over the part before the zero byte, reports nothing and adds
  the record of \<open>MAG 1\<close>.
\<close>

theorem text_cut_at_zero_byte_counterexample:
  "strict_loader (one_item_text @ CHR 0x00 # ''<rss'') = Inl ''Error parsing document'' \<and>
   parseRssFeed strict_loader mag_pattern (one_item_text @ CHR 0x00 # ''<rss'') [] =
     ([], Inr [\<lparr>name = ''MAG 1'', link = [], episodeNumber = 1\<rparr>])"
proof -
  let ?item = "Element ''item'' [] [Element ''title'' [] [PCData ''MAG 1'']]"
  have n: "item_name ?item = ''MAG 1''" and l: "item_link ?item = []"
    by (simp_all add: item_name_def item_link_def child_def text_get_def attribute_value_def)
  have "parse_item mag_pattern ?item [] = Inr [\<lparr>name = ''MAG 1'', link = [], episodeNumber = 1\<rparr>]"
    using mag_1_number
    by (cases "regex_search ''MAG 1'' mag_pattern") (auto simp: parse_item_def n l)
  then have "parseRssFeed strict_loader mag_pattern (one_item_text @ CHR 0x00 # ''<rss'') [] =
     ([], Inr [\<lparr>name = ''MAG 1'', link = [], episodeNumber = 1\<rparr>])"
    by (simp add: parseRssFeed_def nul_cut strict_loader_def one_item_doc_def select_items_def
        step_child_def)
  moreover have "strict_loader (one_item_text @ CHR 0x00 # ''<rss'') = Inl ''Error parsing document''"
    by (simp add: strict_loader_def one_item_text_def)
  ultimately show ?thesis by simp
qed

text \<open>
  C4, amended. When \<open>load_string\<close> rejects what it is given, the text up to its first
  zero byte, \<open>parseRssFeed\<close> writes \<open>Error parsing XML:\<close> and the parser's
  description to standard error, returns normally (no exception) and leaves the
  caller's vector as it was. The vector is empty at both calls in \<open>main\<close>: each pass
  goes on with an empty list, and a run whose feed is rejected writes the message twice
  and returns 0.
\<close>

theorem malformed_xml:
  assumes "ld (c_str xmlData) = Inl description"
  shows "parseRssFeed ld pat xmlData episodes =
           ([Cerr (''Error parsing XML: '' @ description)], Inr episodes) \<and>
         (load_string env = ld \<and> sort_contract (std_sort env) \<longrightarrow>
            series_pass env pat xmlData st =
              Inr (st\<lparr>trace := trace st @ [Cerr (''Error parsing XML: '' @ description)]\<rparr>)) \<and>
         (load_string env = ld \<and> sort_contract (std_sort env) \<and>
          create_directories env ''Downloads'' (world st) = (True, w2) \<and>
          curl_easy_init env w2 = (True, w3) \<and>
          curl_easy_perform env (c_str arg) w3 = ((CURLE_OK, blocks), w4) \<and>
          concat blocks = xmlData \<longrightarrow>
            main env (prog # arg # others) st =
              (Exit 0,
               st\<lparr>world := w4,
                  trace := trace st @
                    [Cout (c_str arg), Mkdir ''Downloads'', Http_get (c_str arg),
                     Cerr (''Error parsing XML: '' @ description),
                     Cerr (''Error parsing XML: '' @ description)]\<rparr>))"
proof (intro conjI impI)
  show "parseRssFeed ld pat xmlData episodes =
           ([Cerr (''Error parsing XML: '' @ description)], Inr episodes)"
    using assms by (simp add: parseRssFeed_def)
next
  assume "load_string env = ld \<and> sort_contract (std_sort env)"
  with assms show "series_pass env pat xmlData st =
              Inr (st\<lparr>trace := trace st @ [Cerr (''Error parsing XML: '' @ description)]\<rparr>)"
    by (simp add: series_pass_rejected)
next
  assume a: "load_string env = ld \<and> sort_contract (std_sort env) \<and>
          create_directories env ''Downloads'' (world st) = (True, w2) \<and>
          curl_easy_init env w2 = (True, w3) \<and>
          curl_easy_perform env (c_str arg) w3 = ((CURLE_OK, blocks), w4) \<and>
          concat blocks = xmlData"
  then have l: "load_string env (c_str xmlData) = Inl description"
    and s: "sort_contract (std_sort env)"
    using assms by auto
  note p = series_pass_rejected[OF l s]
  from a show "main env (prog # arg # others) st =
              (Exit 0,
               st\<lparr>world := w4,
                  trace := trace st @
                    [Cout (c_str arg), Mkdir ''Downloads'', Http_get (c_str arg),
                     Cerr (''Error parsing XML: '' @ description),
                     Cerr (''Error parsing XML: '' @ description)]\<rparr>)"
    by (simp add: main_def emit_def response_concat Let_def p CURLE_OK_def)
qed

theorem malformed_xml_witness:
  "parseRssFeed (\<lambda>x. Inl ''Start-end tags mismatch'') mag_pattern ''<rss></channel>''
       [\<lparr>name = ''MAG 1'', link = ''u'', episodeNumber = 1\<rparr>] =
     ([Cerr ''Error parsing XML: Start-end tags mismatch''],
      Inr [\<lparr>name = ''MAG 1'', link = ''u'', episodeNumber = 1\<rparr>]) \<and>
   series_pass (scripted_env (\<lambda>x. Inl ''Start-end tags mismatch'') (\<lambda>u. 0)
                  (\<lambda>u. [''<rss>'', ''</channel>'']) (\<lambda>p. True))
       mag_pattern ''<rss></channel>'' start =
     Inr \<lparr>world = 0, trace = [Cerr ''Error parsing XML: Start-end tags mismatch'']\<rparr> \<and>
   main (scripted_env (\<lambda>x. Inl ''Start-end tags mismatch'') (\<lambda>u. 0)
           (\<lambda>u. [''<rss>'', ''</channel>'']) (\<lambda>p. True))
       [''magnus'', ''http://feed''] start =
     (Exit 0,
      \<lparr>world = 3,
       trace = [Cout ''http://feed'', Mkdir ''Downloads'', Http_get ''http://feed'',
                Cerr ''Error parsing XML: Start-end tags mismatch'',
                Cerr ''Error parsing XML: Start-end tags mismatch'']\<rparr>)"
  using malformed_xml[of "\<lambda>x. Inl ''Start-end tags mismatch''" "''<rss></channel>''"
      "''Start-end tags mismatch''" mag_pattern "[\<lparr>name = ''MAG 1'', link = ''u'', episodeNumber = 1\<rparr>]"
      "scripted_env (\<lambda>x. Inl ''Start-end tags mismatch'') (\<lambda>u. 0)
         (\<lambda>u. [''<rss>'', ''</channel>'']) (\<lambda>p. True)" start 1 2 "''http://feed''"
      "[''<rss>'', ''</channel>'']" 3 "''magnus''" "[]"]
    stable_sort_contract[where 'a = EpisodeInfo]
  by (simp add: scripted_env_def start_def c_str_def code_def CURLE_OK_def)

section \<open>Titles that carry one mark, and titles that carry two\<close>

lemma has_marker_first_letter:
  assumes "\<forall>c \<in> set s. to_lower c \<noteq> to_lower q"
  shows "\<not> has_marker (q # qs) s"
  using assms
proof (induction s)
  case Nil
  then show ?case by simp
next
  case (Cons x xs)
  then have "to_lower x \<noteq> to_lower q" by simp
  then have "\<not> marker_at (q # qs) (x # xs)"
    by (simp add: marker_at_def ci_equal_def)
  with Cons show ?case by simp
qed

lemma digit_to_lower: "is_digit x \<Longrightarrow> to_lower x = x"
  by (simp add: is_digit_def to_lower_def is_upper_def)

lemma code_letters: "code CHR ''m'' = 109" "code CHR ''t'' = 116"
  by (simp_all add: code_def)

lemma digit_not_letter:
  assumes "is_digit x"
  shows "x \<noteq> CHR ''m''" and "x \<noteq> CHR ''t''"
  using assms code_letters by (auto simp: is_digit_def)

lemma prefix_lowered:
  "map to_lower ''MAG '' = ''mag ''"
  "map to_lower ''The Magnus Protocol '' = ''the magnus protocol ''"
  by (simp_all add: to_lower_literals)

lemma plain_title_marker:
  assumes "plain_title p t"
  shows "has_marker p t"
proof -
  from assms obtain d ds where dd: "drop (length p) t = d # ds" and d: "is_digit d"
    and eq: "ci_equal (take (length p) t) p"
    by (cases "drop (length p) t") (auto simp: plain_title_def)
  then have m: "marker_at p t" by (simp add: marker_at_def)
  from dd obtain x xs where "t = x # xs" by (cases t) auto
  with m show ?thesis by simp
qed

lemma plain_mag_title:
  assumes "plain_title ''MAG '' t"
  shows "has_marker ''MAG '' t" and "\<not> has_marker ''The Magnus Protocol '' t"
proof -
  show "has_marker ''MAG '' t" using assms by (rule plain_title_marker)
  have l: "length ''MAG '' = 4" by simp
  from assms have p: "map to_lower (take 4 t) = ''mag ''"
    and g: "list_all is_digit (drop 4 t)"
    unfolding plain_title_def ci_equal_def l prefix_lowered by simp_all
  from p obtain c1 c2 c3 c4 where q: "take 4 t = [c1, c2, c3, c4]"
    and lo: "to_lower c1 = CHR ''m''" "to_lower c2 = CHR ''a''" "to_lower c3 = CHR ''g''"
      "to_lower c4 = CHR '' ''"
    by (auto simp: map_eq_Cons_conv)
  have "t = take 4 t @ drop 4 t" by simp
  then have t: "t = c1 # c2 # c3 # c4 # drop 4 t" unfolding q by simp
  have "\<forall>c \<in> set (c1 # c2 # c3 # c4 # drop 4 t). to_lower c \<noteq> to_lower CHR ''T''"
    using g lo digit_not_letter(2) digit_to_lower
    by (auto simp: to_lower_literals list_all_iff)
  then have "\<forall>c \<in> set t. to_lower c \<noteq> to_lower CHR ''T''"
    using t by simp
  then show "\<not> has_marker ''The Magnus Protocol '' t"
    by (rule has_marker_first_letter)
qed

lemma plain_protocol_title:
  assumes "plain_title ''The Magnus Protocol '' t"
  shows "has_marker ''The Magnus Protocol '' t" and "\<not> has_marker ''MAG '' t"
proof -
  show "has_marker ''The Magnus Protocol '' t" using assms by (rule plain_title_marker)
  have l: "length ''The Magnus Protocol '' = 20" by simp
  from assms have p: "map to_lower (take 20 t) = ''the magnus protocol ''"
    and g: "list_all is_digit (drop 20 t)"
    unfolding plain_title_def ci_equal_def l prefix_lowered by simp_all
  from p obtain c1 c2 c3 c4 c5 c6 c7 c8 c9 c10 c11 c12 c13 c14 c15 c16 c17 c18 c19 c20 where q: "take 20 t = [c1, c2, c3, c4, c5, c6, c7, c8, c9, c10, c11, c12, c13, c14, c15, c16, c17, c18, c19, c20]"
    and lo: "to_lower c1 = CHR ''t''" "to_lower c2 = CHR ''h''" "to_lower c3 = CHR ''e''" "to_lower c4 = CHR '' ''" "to_lower c5 = CHR ''m''" "to_lower c6 = CHR ''a''" "to_lower c7 = CHR ''g''" "to_lower c8 = CHR ''n''" "to_lower c9 = CHR ''u''" "to_lower c10 = CHR ''s''" "to_lower c11 = CHR '' ''" "to_lower c12 = CHR ''p''" "to_lower c13 = CHR ''r''" "to_lower c14 = CHR ''o''" "to_lower c15 = CHR ''t''" "to_lower c16 = CHR ''o''" "to_lower c17 = CHR ''c''" "to_lower c18 = CHR ''o''" "to_lower c19 = CHR ''l''" "to_lower c20 = CHR '' ''"
    by (auto simp: map_eq_Cons_conv)
  have "t = take 20 t @ drop 20 t" by simp
  then have t: "t = c1 # c2 # c3 # c4 # c5 # c6 # c7 # c8 # c9 # c10 # c11 # c12 # c13 # c14 # c15 # c16 # c17 # c18 # c19 # c20 # drop 20 t" unfolding q by simp
  have "\<forall>c \<in> set (drop 20 t). to_lower c \<noteq> to_lower CHR ''M''"
    using g digit_not_letter(1) digit_to_lower
    by (auto simp: to_lower_literals list_all_iff)
  then have r: "\<not> has_marker ''MAG '' (drop 20 t)"
    by (rule has_marker_first_letter)
  have "\<not> has_marker ''MAG '' (c1 # c2 # c3 # c4 # c5 # c6 # c7 # c8 # c9 # c10 # c11 # c12 # c13 # c14 # c15 # c16 # c17 # c18 # c19 # c20 # drop 20 t)"
    using r by (simp add: marker_at_def ci_equal_def to_lower_literals lo)
  then show "\<not> has_marker ''MAG '' t"
    using t by simp
qed

lemma crossover_marks:
  "has_marker ''MAG '' ''MAG 3 - The Magnus Protocol 12''"
  "has_marker ''The Magnus Protocol '' ''MAG 3 - The Magnus Protocol 12''"
  "marker_number ''MAG '' ''MAG 3 - The Magnus Protocol 12'' = ''3''"
  "marker_number ''The Magnus Protocol '' ''MAG 3 - The Magnus Protocol 12'' = ''12''"
  by (simp_all add: marker_at_def ci_equal_def to_lower_literals is_digit_def code_def)

lemma stoi_3: "stoi ''3'' = Inr 3"
  by code_simp

lemma scenario_plain:
  "plain_title ''MAG '' ''MAG 3''"
  "plain_title ''The Magnus Protocol '' ''The Magnus Protocol 1''"
  by (simp_all add: plain_title_def ci_equal_def to_lower_literals is_digit_def code_def)

text \<open>
  C9, as stated, fails on a title that names both series: the one item titled
  \<open>MAG 3 - The Magnus Protocol 12\<close> is put in the first list with number 3 and in the
  second list with number 12. It also fails on a title whose number does not fit an
  \<open>int\<close>: the pass ends with the exception of \<open>std::stoi\<close> and yields no list.
\<close>

theorem crossover_title_counterexample:
  "series_episodes crossover_env mag_pattern ''<rss/>'' =
     ([], Inr [\<lparr>name = ''MAG 3 - The Magnus Protocol 12'', link = ''http://cdn/x.mp3'',
                episodeNumber = 3\<rparr>]) \<and>
   series_episodes crossover_env protocol_pattern ''<rss/>'' =
     ([], Inr [\<lparr>name = ''MAG 3 - The Magnus Protocol 12'', link = ''http://cdn/x.mp3'',
                episodeNumber = 12\<rparr>]) \<and>
   series_episodes
     (scripted_env (\<lambda>x. Inr (feed_of [feed_item ''MAG 2147483648'' ''http://cdn/y.mp3'']))
        (\<lambda>u. 0) (\<lambda>u. []) (\<lambda>p. True))
     mag_pattern ''<rss/>'' = ([], Inl Out_of_range)"
proof -
  let ?t = "''MAG 3 - The Magnus Protocol 12''"
  let ?item = "feed_item ?t ''http://cdn/x.mp3''"
  have m: "regex_search ?t mag_pattern = Some [1 \<mapsto> ''3'']"
    and p: "regex_search ?t protocol_pattern = Some [1 \<mapsto> ''12'']"
    using crossover_marks by (simp_all add: series_search)
  have "parse_item mag_pattern ?item [] =
      Inr [\<lparr>name = ?t, link = ''http://cdn/x.mp3'', episodeNumber = 3\<rparr>]"
    using m stoi_3
    by (simp add: parse_item_def item_name_feed_item item_link_feed_item sub_match_def)
  moreover have "parse_item protocol_pattern ?item [] =
      Inr [\<lparr>name = ?t, link = ''http://cdn/x.mp3'', episodeNumber = 12\<rparr>]"
    using p stoi_12
    by (simp add: parse_item_def item_name_feed_item item_link_feed_item sub_match_def)
  moreover have "parse_item mag_pattern (feed_item ''MAG 2147483648'' ''http://cdn/y.mp3'') []
      = Inl Out_of_range"
    using overflow_bare
    by (cases "regex_search ''MAG 2147483648'' mag_pattern")
      (auto simp: parse_item_def item_name_feed_item)
  ultimately show ?thesis
    by (simp add: series_episodes_def parseRssFeed_def crossover_env_def scripted_env_def
        select_items_feed_of node_name_feed_item sequencer_def stable_sort_def)
qed

text \<open>
  C9, amended. The two passes of \<open>main\<close> over one feed, with \<open>MAG (\d+)\<close> and with
  \<open>The Magnus Protocol (\d+)\<close>, both ignoring case. Let the feed load and let the
  numbers after the marks fit an \<open>int\<close>. Then neither pass fails and each list is
  sorted by episode number. The first list holds exactly the titles that carry the
  mark of \<open>MAG\<close> (the prefix in any case, directly followed by a digit; each title as
  often as the feed has it), the second exactly those that carry the mark of
  \<open>The Magnus Protocol\<close>, and the episode number of a record is the number after the
  first mark of its series. A title is in both lists exactly when it carries both
  marks. A title that is a series prefix followed by a number and nothing else, as
  \<open>MAG 3\<close> and \<open>The Magnus Protocol 1\<close> are, is in the list of its series and not in
  the other.
\<close>

theorem two_series_lists:
  assumes "load_string env (c_str xmlData) = Inr doc" and "sort_contract (std_sort env)"
    and "\<forall>item \<in> set (select_items doc).
           digits_val (marker_number ''MAG '' (item_name item)) \<le> INT_MAX \<and>
           digits_val (marker_number ''The Magnus Protocol '' (item_name item)) \<le> INT_MAX"
  shows "\<exists>mags protocols.
     series_episodes env mag_pattern xmlData = ([], Inr mags) \<and>
     series_episodes env protocol_pattern xmlData = ([], Inr protocols) \<and>
     sorted (map episodeNumber mags) \<and> sorted (map episodeNumber protocols) \<and>
     (\<forall>e \<in> set mags. has_marker ''MAG '' (name e) \<and>
        episodeNumber e = digits_val (marker_number ''MAG '' (name e))) \<and>
     (\<forall>e \<in> set protocols. has_marker ''The Magnus Protocol '' (name e) \<and>
        episodeNumber e = digits_val (marker_number ''The Magnus Protocol '' (name e))) \<and>
     mset (map name mags) =
       mset (filter (has_marker ''MAG '') (map item_name (select_items doc))) \<and>
     mset (map name protocols) =
       mset (filter (has_marker ''The Magnus Protocol '') (map item_name (select_items doc))) \<and>
     name ` set mags \<inter> name ` set protocols =
       {t \<in> item_name ` set (select_items doc).
          has_marker ''MAG '' t \<and> has_marker ''The Magnus Protocol '' t} \<and>
     (\<forall>item \<in> set (select_items doc). plain_title ''MAG '' (item_name item) \<longrightarrow>
        item_name item \<in> name ` set mags \<and> item_name item \<notin> name ` set protocols) \<and>
     (\<forall>item \<in> set (select_items doc). plain_title ''The Magnus Protocol '' (item_name item) \<longrightarrow>
        item_name item \<in> name ` set protocols \<and> item_name item \<notin> name ` set mags)"
proof -
  let ?titles = "map item_name (select_items doc)"
  have mag_hit: "regex_search (item_name item) mag_pattern
          = Some [1 \<mapsto> marker_number ''MAG '' (item_name item)] \<and>
        stoi (marker_number ''MAG '' (item_name item))
          = Inr (digits_val (marker_number ''MAG '' (item_name item))) \<and>
        0 \<le> digits_val (marker_number ''MAG '' (item_name item))"
    if "item \<in> set (select_items doc)" "has_marker ''MAG '' (item_name item)" for item
    using that assms(3) marker_number_stoi[of "''MAG ''" "item_name item"]
    by (simp add: series_search(1))
  have mag_miss: "regex_search (item_name item) mag_pattern = None"
    if "\<not> has_marker ''MAG '' (item_name item)" for item
    using that by (simp add: series_search(1))
  have pro_hit: "regex_search (item_name item) protocol_pattern
          = Some [1 \<mapsto> marker_number ''The Magnus Protocol '' (item_name item)] \<and>
        stoi (marker_number ''The Magnus Protocol '' (item_name item))
          = Inr (digits_val (marker_number ''The Magnus Protocol '' (item_name item))) \<and>
        0 \<le> digits_val (marker_number ''The Magnus Protocol '' (item_name item))"
    if "item \<in> set (select_items doc)" "has_marker ''The Magnus Protocol '' (item_name item)" for item
    using that assms(3) marker_number_stoi[of "''The Magnus Protocol ''" "item_name item"]
    by (simp add: series_search(2))
  have pro_miss: "regex_search (item_name item) protocol_pattern = None"
    if "\<not> has_marker ''The Magnus Protocol '' (item_name item)" for item
    using that by (simp add: series_search(2))
  from series_episodes_of_titles[OF assms(1,2), of "has_marker ''MAG ''" mag_pattern
      "marker_number ''MAG ''"] mag_hit mag_miss
  obtain mags where m: "series_episodes env mag_pattern xmlData = ([], Inr mags)"
    "sorted (map episodeNumber mags)"
    "\<forall>e \<in> set mags. name e \<in> item_name ` set (select_items doc) \<and> has_marker ''MAG '' (name e) \<and>
        episodeNumber e = digits_val (marker_number ''MAG '' (name e))"
    "mset (map name mags) = mset (filter (has_marker ''MAG '') ?titles)"
    by blast
  from series_episodes_of_titles[OF assms(1,2), of "has_marker ''The Magnus Protocol ''"
      protocol_pattern "marker_number ''The Magnus Protocol ''"] pro_hit pro_miss
  obtain protocols where p: "series_episodes env protocol_pattern xmlData = ([], Inr protocols)"
    "sorted (map episodeNumber protocols)"
    "\<forall>e \<in> set protocols. name e \<in> item_name ` set (select_items doc) \<and>
        has_marker ''The Magnus Protocol '' (name e) \<and>
        episodeNumber e = digits_val (marker_number ''The Magnus Protocol '' (name e))"
    "mset (map name protocols) = mset (filter (has_marker ''The Magnus Protocol '') ?titles)"
    by blast
  have "set (map name mags) = set (filter (has_marker ''MAG '') ?titles)"
    using m(4) by (rule mset_eq_setD)
  then have sm: "name ` set mags = {t \<in> item_name ` set (select_items doc). has_marker ''MAG '' t}"
    by auto
  have "set (map name protocols) = set (filter (has_marker ''The Magnus Protocol '') ?titles)"
    using p(4) by (rule mset_eq_setD)
  then have sp: "name ` set protocols =
      {t \<in> item_name ` set (select_items doc). has_marker ''The Magnus Protocol '' t}"
    by auto
  have both: "name ` set mags \<inter> name ` set protocols =
       {t \<in> item_name ` set (select_items doc).
          has_marker ''MAG '' t \<and> has_marker ''The Magnus Protocol '' t}"
    unfolding sm sp by blast
  have pm: "\<forall>item \<in> set (select_items doc). plain_title ''MAG '' (item_name item) \<longrightarrow>
        item_name item \<in> name ` set mags \<and> item_name item \<notin> name ` set protocols"
    unfolding sm sp using plain_mag_title by blast
  have pp: "\<forall>item \<in> set (select_items doc). plain_title ''The Magnus Protocol '' (item_name item) \<longrightarrow>
        item_name item \<in> name ` set protocols \<and> item_name item \<notin> name ` set mags"
    unfolding sm sp using plain_protocol_title by blast
  have m': "\<forall>e \<in> set mags. has_marker ''MAG '' (name e) \<and>
        episodeNumber e = digits_val (marker_number ''MAG '' (name e))"
    using m(3) by blast
  have p': "\<forall>e \<in> set protocols. has_marker ''The Magnus Protocol '' (name e) \<and>
        episodeNumber e = digits_val (marker_number ''The Magnus Protocol '' (name e))"
    using p(3) by blast
  show ?thesis
    using m(1,2,4) p(1,2,4) m' p' both pm pp
    by (intro exI[of _ mags] exI[of _ protocols] conjI)
qed

theorem two_series_lists_witness:
  "\<exists>mags protocols.
     series_episodes online_env mag_pattern ''<rss></rss>'' = ([], Inr mags) \<and>
     series_episodes online_env protocol_pattern ''<rss></rss>'' = ([], Inr protocols) \<and>
     map name mags = [''MAG 3''] \<and> map episodeNumber mags = [3] \<and>
     map name protocols = [''The Magnus Protocol 1''] \<and> map episodeNumber protocols = [1] \<and>
     ''MAG 3'' \<notin> name ` set protocols \<and> ''The Magnus Protocol 1'' \<notin> name ` set mags \<and>
     name ` set mags \<inter> name ` set protocols = {}"
proof -
  have ld: "load_string online_env (c_str ''<rss></rss>'') = Inr two_series_feed"
    by (simp add: online_env_def scripted_env_def)
  have srt: "sort_contract (std_sort online_env)"
    using stable_sort_contract[where 'a = EpisodeInfo]
    by (simp add: online_env_def scripted_env_def)
  have items: "map item_name (select_items two_series_feed) = [''MAG 3'', ''The Magnus Protocol 1'']"
    by (simp add: two_series_feed_def select_items_feed_of node_name_feed_item item_name_feed_item)
  have titles: "item_name ` set (select_items two_series_feed) = {''MAG 3'', ''The Magnus Protocol 1''}"
    by (simp add: two_series_feed_def select_items_feed_of node_name_feed_item item_name_feed_item)
  have fit: "\<forall>item \<in> set (select_items two_series_feed).
           digits_val (marker_number ''MAG '' (item_name item)) \<le> INT_MAX \<and>
           digits_val (marker_number ''The Magnus Protocol '' (item_name item)) \<le> INT_MAX"
    using scenario_titles(5-8)
    by (simp add: two_series_feed_def select_items_feed_of node_name_feed_item item_name_feed_item
        INT_MAX_def)
  from two_series_lists[OF ld srt fit] obtain mags protocols where r:
     "series_episodes online_env mag_pattern ''<rss></rss>'' = ([], Inr mags)"
     "series_episodes online_env protocol_pattern ''<rss></rss>'' = ([], Inr protocols)"
     and sorted_both: "sorted (map episodeNumber mags)" "sorted (map episodeNumber protocols)"
     and own: "\<forall>e \<in> set mags. has_marker ''MAG '' (name e) \<and>
        episodeNumber e = digits_val (marker_number ''MAG '' (name e))"
       "\<forall>e \<in> set protocols. has_marker ''The Magnus Protocol '' (name e) \<and>
        episodeNumber e = digits_val (marker_number ''The Magnus Protocol '' (name e))"
     and names: "mset (map name mags) =
       mset (filter (has_marker ''MAG '') (map item_name (select_items two_series_feed)))"
       "mset (map name protocols) =
       mset (filter (has_marker ''The Magnus Protocol '') (map item_name (select_items two_series_feed)))"
     and both: "name ` set mags \<inter> name ` set protocols =
       {t \<in> item_name ` set (select_items two_series_feed).
          has_marker ''MAG '' t \<and> has_marker ''The Magnus Protocol '' t}"
     and plain: "\<forall>item \<in> set (select_items two_series_feed). plain_title ''MAG '' (item_name item) \<longrightarrow>
        item_name item \<in> name ` set mags \<and> item_name item \<notin> name ` set protocols"
       "\<forall>item \<in> set (select_items two_series_feed).
        plain_title ''The Magnus Protocol '' (item_name item) \<longrightarrow>
        item_name item \<in> name ` set protocols \<and> item_name item \<notin> name ` set mags"
    by (elim exE conjE)
  have "filter (has_marker ''MAG '') [''MAG 3'', ''The Magnus Protocol 1''] = [''MAG 3'']"
    using scenario_titles(1,3) by simp
  with names(1) have nm: "map name mags = [''MAG 3'']"
    unfolding items by (simp only: mset_single_list)
  have "filter (has_marker ''The Magnus Protocol '') [''MAG 3'', ''The Magnus Protocol 1'']
      = [''The Magnus Protocol 1'']"
    using scenario_titles(2,4) by simp
  with names(2) have np: "map name protocols = [''The Magnus Protocol 1'']"
    unfolding items by (simp only: mset_single_list)
  from nm own(1) have em: "map episodeNumber mags = [3]"
    using scenario_titles(5) by (cases mags) auto
  from np own(2) have ep: "map episodeNumber protocols = [1]"
    using scenario_titles(6) by (cases protocols) auto
  have pa: "''MAG 3'' \<notin> name ` set protocols"
    using plain(1) scenario_plain(1)
    by (simp add: two_series_feed_def select_items_feed_of node_name_feed_item item_name_feed_item)
  have pb: "''The Magnus Protocol 1'' \<notin> name ` set mags"
    using plain(2) scenario_plain(2)
    by (simp add: two_series_feed_def select_items_feed_of node_name_feed_item item_name_feed_item)
  have e: "name ` set mags \<inter> name ` set protocols = {}"
    unfolding both titles using scenario_titles(3,4) by auto
  from r(1,2) nm np em ep pa pb e show ?thesis
    by (intro exI[of _ mags] exI[of _ protocols]) simp
qed

end
